theory Spec2Isabelle
  imports Main "HOL-Library.Word" "HOL-Library.Multiset"
begin

section \<open>Replacement policies of the set-associative cache simulator\<close>

text \<open>
  A shallow embedding of \<^verbatim>\<open>src/replacement_policies.c\<close>. Every C function becomes a
  HOL function of the same name. A function that receives the policy by pointer takes
  the pointed-to struct and returns it as it is after the call. A read or write
  through a null pointer or outside an array, and a division by zero, have no defined
  result in C; the model returns the fault as a value (\<open>Inl\<close>) instead.
\<close>

subsection \<open>Data\<close>

type_synonym u32 = "32 word"

text \<open>
  Modelled from the spec: the enumeration of coherence statuses is declared in
  \<^verbatim>\<open>memory_system.h\<close>, which is not among the sources. The policies compare a status
  with \<open>INVALID\<close> and with \<open>EXCLUSIVE\<close> only; every further status of the
  enumeration (a "dirty" line for the policies) is an \<open>OTHER\<close> value.
\<close>

datatype cache_status = INVALID | EXCLUSIVE | OTHER nat

text \<open>
  Modelled from the spec: \<^verbatim>\<open>struct cache_line\<close> and \<^verbatim>\<open>struct cache_system\<close> are
  declared in \<^verbatim>\<open>memory_system.h\<close> too. Only the fields that the policies read are
  kept: a line's tag and status, the cache's associativity and its array of lines,
  in which set \<open>s\<close> occupies the indices from \<open>s * associativity\<close> on.
\<close>

record cache_line =
  tag :: u32
  status :: cache_status

record cache_system =
  cs_associativity :: u32
  cache_lines :: "cache_line list"

text \<open>\<^verbatim>\<open>struct lru_metadata\<close>: \<open>order ! s ! 0\<close> is the most recently used line of set \<open>s\<close>.\<close>

record lru_metadata =
  num_sets :: u32
  associativity :: u32
  order :: "u32 list list"

record rand_metadata =
  rand_num_sets :: u32
  rand_associativity :: u32

text \<open>
  \<^verbatim>\<open>struct replacement_policy\<close>: the \<^verbatim>\<open>void *data\<close> field, at the type the policy's
  functions cast it to; \<open>None\<close> is the null pointer. The three function pointers are
  fixed by the constructor and are not data of the model.
\<close>

record 'm replacement_policy =
  data :: "'m option"

datatype fault = NullDeref | OutOfBounds | DivByZero

definition rd :: "'a list \<Rightarrow> nat \<Rightarrow> fault + 'a" where
  "rd xs i = (if i < length xs then Inr (xs ! i) else Inl OutOfBounds)"

definition wr :: "'a list \<Rightarrow> nat \<Rightarrow> 'a \<Rightarrow> fault + 'a list" where
  "wr xs i v = (if i < length xs then Inr (xs[i := v]) else Inl OutOfBounds)"

text \<open>The conversions between \<^verbatim>\<open>uint32_t\<close> and \<^verbatim>\<open>int\<close> (32 bits, two's complement).\<close>

definition int_of_u32 :: "u32 \<Rightarrow> int" where
  "int_of_u32 w = sint w"

definition u32_of_int :: "int \<Rightarrow> u32" where
  "u32_of_int i = word_of_int i"

subsection \<open>LRU\<close>

text \<open>
  The first loop of \<^verbatim>\<open>lru_cache_access\<close>: the local index of the first line of the set
  whose tag is \<open>tg\<close> and whose status is not \<open>INVALID\<close>, converted to \<^verbatim>\<open>int\<close>, or \<open>-1\<close>.
  The counter \<open>i\<close> stays below the associativity, so it never wraps.
\<close>

function find_line :: "cache_line list \<Rightarrow> nat \<Rightarrow> nat \<Rightarrow> u32 \<Rightarrow> nat \<Rightarrow> fault + int" where
  "find_line cls set_start assoc tg i =
     (if i < assoc then
        (case rd cls (set_start + i) of
           Inl e \<Rightarrow> Inl e
         | Inr l \<Rightarrow>
             if tag l = tg \<and> status l \<noteq> INVALID then Inr (int_of_u32 (word_of_nat i))
             else find_line cls set_start assoc tg (Suc i))
      else Inr (- 1))"
  by pat_completeness auto
termination
  by (relation "measure (\<lambda>(cls, set_start, assoc, tg, i). assoc - i)") auto

declare find_line.simps [simp del]

text \<open>The second loop: the position of \<open>x\<close> in \<open>order[set_idx]\<close>, or \<open>-1\<close>.\<close>

function find_pos :: "u32 list list \<Rightarrow> u32 \<Rightarrow> nat \<Rightarrow> u32 \<Rightarrow> nat \<Rightarrow> fault + int" where
  "find_pos ord set_idx assoc x i =
     (if i < assoc then
        (case rd ord (unat set_idx) of
           Inl e \<Rightarrow> Inl e
         | Inr row \<Rightarrow>
             (case rd row i of
                Inl e \<Rightarrow> Inl e
              | Inr y \<Rightarrow>
                  if y = x then Inr (int_of_u32 (word_of_nat i))
                  else find_pos ord set_idx assoc x (Suc i)))
      else Inr (- 1))"
  by pat_completeness auto
termination
  by (relation "measure (\<lambda>(ord, set_idx, assoc, x, i). assoc - i)") auto

declare find_pos.simps [simp del]

text \<open>The third loop: \<^verbatim>\<open>for (int i = p; i > 0; i--) row[i] = row[i - 1];\<close>\<close>

function shift_loop :: "u32 list \<Rightarrow> int \<Rightarrow> fault + u32 list" where
  "shift_loop row i =
     (if i > 0 then
        (case rd row (nat (i - 1)) of
           Inl e \<Rightarrow> Inl e
         | Inr v \<Rightarrow>
             (case wr row (nat i) v of
                Inl e \<Rightarrow> Inl e
              | Inr row' \<Rightarrow> shift_loop row' (i - 1)))
      else Inr row)"
  by pat_completeness auto
termination
  by (relation "measure (\<lambda>(row, i). nat i)") auto

declare shift_loop.simps [simp del]

definition lru_cache_access ::
  "lru_metadata replacement_policy \<Rightarrow> cache_system \<Rightarrow> u32 \<Rightarrow> u32 \<Rightarrow>
     fault + lru_metadata replacement_policy" where
  "lru_cache_access replacement_policy cache_system set_idx tg =
     (let set_start = set_idx * cs_associativity cache_system in
      case find_line (cache_lines cache_system) (unat set_start)
             (unat (cs_associativity cache_system)) tg 0 of
        Inl e \<Rightarrow> Inl e
      | Inr accessed_line_idx \<Rightarrow>
          if accessed_line_idx < 0 then Inr replacement_policy
          else
            (case data replacement_policy of
               None \<Rightarrow> Inl NullDeref
             | Some metadata \<Rightarrow>
                 (case find_pos (order metadata) set_idx (unat (associativity metadata))
                         (u32_of_int accessed_line_idx) 0 of
                    Inl e \<Rightarrow> Inl e
                  | Inr p \<Rightarrow>
                      if p < 0 then Inr replacement_policy
                      else
                        (case rd (order metadata) (unat set_idx) of
                           Inl e \<Rightarrow> Inl e
                         | Inr row \<Rightarrow>
                             (case shift_loop row p of
                                Inl e \<Rightarrow> Inl e
                              | Inr row' \<Rightarrow>
                                  (case wr row' 0 (u32_of_int accessed_line_idx) of
                                     Inl e \<Rightarrow> Inl e
                                   | Inr row'' \<Rightarrow>
                                       Inr (replacement_policy
                                         \<lparr>data := Some (metadata
                                            \<lparr>order := (order metadata)[unat set_idx := row'']\<rparr>)\<rparr>)))))))"

text \<open>\<^verbatim>\<open>lru_eviction_index\<close>: the entry at the tail of the set's order.\<close>

definition lru_eviction_index ::
  "lru_metadata replacement_policy \<Rightarrow> cache_system \<Rightarrow> u32 \<Rightarrow>
     fault + (u32 \<times> lru_metadata replacement_policy)" where
  "lru_eviction_index replacement_policy cache_system set_idx =
     (case data replacement_policy of
        None \<Rightarrow> Inl NullDeref
      | Some metadata \<Rightarrow>
          (case rd (order metadata) (unat set_idx) of
             Inl e \<Rightarrow> Inl e
           | Inr row \<Rightarrow>
               (case rd row (unat (associativity metadata - 1)) of
                  Inl e \<Rightarrow> Inl e
                | Inr v \<Rightarrow> Inr (v, replacement_policy))))"

subsection \<open>LRU, preferring clean lines\<close>

text \<open>
  The loop of \<^verbatim>\<open>lru_prefer_clean_eviction_index\<close>, from position \<open>i\<close> of the set's order
  down to position 0: the first local index whose line is \<open>EXCLUSIVE\<close>, if there is one.
  The global index \<^verbatim>\<open>set_idx * assoc + line_idx_in_set\<close> is computed in \<^verbatim>\<open>uint32_t\<close>.
\<close>

function pc_scan ::
  "u32 list list \<Rightarrow> cache_line list \<Rightarrow> u32 \<Rightarrow> u32 \<Rightarrow> int \<Rightarrow> fault + u32 option" where
  "pc_scan ord cls set_idx assoc i =
     (if i \<ge> 0 then
        (case rd ord (unat set_idx) of
           Inl e \<Rightarrow> Inl e
         | Inr row \<Rightarrow>
             (case rd row (nat i) of
                Inl e \<Rightarrow> Inl e
              | Inr line_idx_in_set \<Rightarrow>
                  (case rd cls (unat (set_idx * assoc + line_idx_in_set)) of
                     Inl e \<Rightarrow> Inl e
                   | Inr cl \<Rightarrow>
                       if status cl = EXCLUSIVE then Inr (Some line_idx_in_set)
                       else pc_scan ord cls set_idx assoc (i - 1))))
      else Inr None)"
  by pat_completeness auto
termination
  by (relation "measure (\<lambda>(ord, cls, set_idx, assoc, i). nat (i + 1))") auto

declare pc_scan.simps [simp del]

definition lru_prefer_clean_eviction_index ::
  "lru_metadata replacement_policy \<Rightarrow> cache_system \<Rightarrow> u32 \<Rightarrow>
     fault + (u32 \<times> lru_metadata replacement_policy)" where
  "lru_prefer_clean_eviction_index replacement_policy cache_system set_idx =
     (case data replacement_policy of
        None \<Rightarrow> Inl NullDeref
      | Some md \<Rightarrow>
          (let assoc = associativity md in
           case pc_scan (order md) (cache_lines cache_system) set_idx assoc
                  (int_of_u32 (assoc - 1)) of
             Inl e \<Rightarrow> Inl e
           | Inr (Some line_idx_in_set) \<Rightarrow> Inr (line_idx_in_set, replacement_policy)
           | Inr None \<Rightarrow>
               (case rd (order md) (unat set_idx) of
                  Inl e \<Rightarrow> Inl e
                | Inr row \<Rightarrow>
                    (case rd row (unat (assoc - 1)) of
                       Inl e \<Rightarrow> Inl e
                     | Inr v \<Rightarrow> Inr (v, replacement_policy)))))"

definition lru_prefer_clean_cache_access ::
  "lru_metadata replacement_policy \<Rightarrow> cache_system \<Rightarrow> u32 \<Rightarrow> u32 \<Rightarrow>
     fault + lru_metadata replacement_policy" where
  "lru_prefer_clean_cache_access replacement_policy cache_system set_idx tg =
     (let set_start = set_idx * cs_associativity cache_system in
      case find_line (cache_lines cache_system) (unat set_start)
             (unat (cs_associativity cache_system)) tg 0 of
        Inl e \<Rightarrow> Inl e
      | Inr accessed_line_idx \<Rightarrow>
          if accessed_line_idx < 0 then Inr replacement_policy
          else
            (case data replacement_policy of
               None \<Rightarrow> Inl NullDeref
             | Some md \<Rightarrow>
                 (case find_pos (order md) set_idx (unat (associativity md))
                         (u32_of_int accessed_line_idx) 0 of
                    Inl e \<Rightarrow> Inl e
                  | Inr p \<Rightarrow>
                      if p < 0 then Inr replacement_policy
                      else
                        (case rd (order md) (unat set_idx) of
                           Inl e \<Rightarrow> Inl e
                         | Inr row \<Rightarrow>
                             (case shift_loop row p of
                                Inl e \<Rightarrow> Inl e
                              | Inr row' \<Rightarrow>
                                  (case wr row' 0 (u32_of_int accessed_line_idx) of
                                     Inl e \<Rightarrow> Inl e
                                   | Inr row'' \<Rightarrow>
                                       Inr (replacement_policy
                                         \<lparr>data := Some (md
                                            \<lparr>order := (order md)[unat set_idx := row'']\<rparr>)\<rparr>)))))))"

subsection \<open>Construction and cleanup of the two LRU policies\<close>

text \<open>
  \<open>malloc_ok k\<close> tells whether the \<open>k\<close>-th call of \<^verbatim>\<open>malloc\<close> succeeds: call 0 is the
  policy struct, call 1 the metadata, call 2 the array of row pointers and call
  \<open>3 + s\<close> the row of set \<open>s\<close>. The constructors check the first two results only: a
  failed later allocation is written through as soon as the loops store into it.
  The result \<open>Inr None\<close> is the returned null pointer.
\<close>

definition lru_replacement_policy_new ::
  "(nat \<Rightarrow> bool) \<Rightarrow> u32 \<Rightarrow> u32 \<Rightarrow> fault + lru_metadata replacement_policy option" where
  "lru_replacement_policy_new malloc_ok sets assoc =
     (if \<not> malloc_ok 0 then Inr None
      else if \<not> malloc_ok 1 then Inr None
      else if \<not> malloc_ok 2 \<and> 0 < sets then Inl NullDeref
      else if list_ex (\<lambda>s. \<not> malloc_ok (3 + s)) [0..<unat sets] \<and> 0 < assoc then Inl NullDeref
      else Inr (Some \<lparr>data = Some
             \<lparr>num_sets = sets, associativity = assoc,
              order = map (\<lambda>s. map word_of_nat [0..<unat assoc]) [0..<unat sets]\<rparr>\<rparr>))"

definition lru_prefer_clean_replacement_policy_new ::
  "(nat \<Rightarrow> bool) \<Rightarrow> u32 \<Rightarrow> u32 \<Rightarrow> fault + lru_metadata replacement_policy option" where
  "lru_prefer_clean_replacement_policy_new malloc_ok sets assoc =
     (if \<not> malloc_ok 0 then Inr None
      else if \<not> malloc_ok 1 then Inr None
      else if \<not> malloc_ok 2 \<and> 0 < sets then Inl NullDeref
      else if list_ex (\<lambda>s. \<not> malloc_ok (3 + s)) [0..<unat sets] \<and> 0 < assoc then Inl NullDeref
      else Inr (Some \<lparr>data = Some
             \<lparr>num_sets = sets, associativity = assoc,
              order = map (\<lambda>s. map word_of_nat [0..<unat assoc]) [0..<unat sets]\<rparr>\<rparr>))"

text \<open>
  The cleanup functions receive the pointer to the policy, \<open>None\<close> when it is null,
  and return what it points to afterwards. Both LRU cleanups read
  \<^verbatim>\<open>replacement_policy->data\<close> first, then free \<^verbatim>\<open>order[i]\<close> for every \<open>i < num_sets\<close>,
  the table and the metadata, and store the null pointer in \<^verbatim>\<open>data\<close>.
\<close>

definition lru_replacement_policy_cleanup ::
  "lru_metadata replacement_policy option \<Rightarrow> fault + lru_metadata replacement_policy option" where
  "lru_replacement_policy_cleanup replacement_policy =
     (case replacement_policy of
        None \<Rightarrow> Inl NullDeref
      | Some rp \<Rightarrow>
          (case data rp of
             None \<Rightarrow> Inr (Some rp)
           | Some metadata \<Rightarrow>
               if unat (num_sets metadata) \<le> length (order metadata)
               then Inr (Some (rp\<lparr>data := None\<rparr>))
               else Inl OutOfBounds))"

definition lru_prefer_clean_replacement_policy_cleanup ::
  "lru_metadata replacement_policy option \<Rightarrow> fault + lru_metadata replacement_policy option" where
  "lru_prefer_clean_replacement_policy_cleanup replacement_policy =
     (case replacement_policy of
        None \<Rightarrow> Inl NullDeref
      | Some rp \<Rightarrow>
          (case data rp of
             None \<Rightarrow> Inr (Some rp)
           | Some md \<Rightarrow>
               if unat (num_sets md) \<le> length (order md)
               then Inr (Some (rp\<lparr>data := None\<rparr>))
               else Inl OutOfBounds))"

subsection \<open>RAND\<close>

text \<open>
  \<^verbatim>\<open>rand_eviction_index\<close> of \<^verbatim>\<open>src/replacement_policies.c\<close> returns \<^verbatim>\<open>rand() % assoc\<close>.
  The argument \<open>r\<close> is the \<^verbatim>\<open>int\<close> that this call of the C library's \<^verbatim>\<open>rand()\<close> returns,
  a value from 0 to \<^verbatim>\<open>RAND_MAX\<close>; the remainder is taken in \<^verbatim>\<open>uint32_t\<close>.
\<close>

definition rand_eviction_index ::
  "rand_metadata replacement_policy \<Rightarrow> cache_system \<Rightarrow> u32 \<Rightarrow> int \<Rightarrow>
     fault + (u32 \<times> rand_metadata replacement_policy)" where
  "rand_eviction_index replacement_policy cache_system set_idx r =
     (case data replacement_policy of
        None \<Rightarrow> Inl NullDeref
      | Some md \<Rightarrow>
          (let assoc = rand_associativity md in
           if assoc = 0 then Inl DivByZero
           else Inr (u32_of_int r mod assoc, replacement_policy)))"

text \<open>
  The second copy of the file returns \<^verbatim>\<open>randombytes_uniform(assoc)\<close> instead, a function
  of the libsodium library, which is the parameter \<open>randombytes_uniform\<close> here.
\<close>

definition rand_eviction_index_sodium ::
  "(u32 \<Rightarrow> u32) \<Rightarrow> rand_metadata replacement_policy \<Rightarrow> cache_system \<Rightarrow> u32 \<Rightarrow>
     fault + (u32 \<times> rand_metadata replacement_policy)" where
  "rand_eviction_index_sodium randombytes_uniform replacement_policy cache_system set_idx =
     (case data replacement_policy of
        None \<Rightarrow> Inl NullDeref
      | Some md \<Rightarrow>
          (let assoc = rand_associativity md in
           Inr (randombytes_uniform assoc, replacement_policy)))"

definition rand_cache_access ::
  "rand_metadata replacement_policy \<Rightarrow> cache_system \<Rightarrow> u32 \<Rightarrow> u32 \<Rightarrow>
     fault + rand_metadata replacement_policy" where
  "rand_cache_access replacement_policy cache_system set_idx tg = Inr replacement_policy"

definition rand_replacement_policy_cleanup ::
  "rand_metadata replacement_policy option \<Rightarrow> fault + rand_metadata replacement_policy option" where
  "rand_replacement_policy_cleanup replacement_policy =
     (case replacement_policy of
        None \<Rightarrow> Inr None
      | Some rp \<Rightarrow>
          (case data rp of
             None \<Rightarrow> Inr (Some rp)
           | Some md \<Rightarrow> Inr (Some (rp\<lparr>data := None\<rparr>))))"

subsection \<open>The notions of the specification\<close>

text \<open>Line \<open>i\<close> of set \<open>s\<close> in the cache's array of lines.\<close>

definition set_line :: "cache_system \<Rightarrow> u32 \<Rightarrow> nat \<Rightarrow> cache_line" where
  "set_line cs s i = cache_lines cs ! (unat s * unat (cs_associativity cs) + i)"

definition matches :: "u32 \<Rightarrow> cache_line \<Rightarrow> bool" where
  "matches tg l \<longleftrightarrow> tag l = tg \<and> status l \<noteq> INVALID"

text \<open>
  A tag resolves to local index \<open>i\<close> of set \<open>s\<close> when line \<open>i\<close> is the first line of the
  set that holds the tag with a status other than \<open>INVALID\<close>.
\<close>

definition resolves :: "cache_system \<Rightarrow> u32 \<Rightarrow> u32 \<Rightarrow> nat \<Rightarrow> bool" where
  "resolves cs s tg i \<longleftrightarrow>
     i < unat (cs_associativity cs) \<and> matches tg (set_line cs s i) \<and>
     (\<forall>j \<in> set [0..<i]. \<not> matches tg (set_line cs s j))"

text \<open>A row of the order table is a permutation of the local indices below \<open>assoc\<close>.\<close>

definition is_permutation :: "u32 \<Rightarrow> u32 list \<Rightarrow> bool" where
  "is_permutation assoc row \<longleftrightarrow> mset row = mset (map word_of_nat [0..<unat assoc])"

text \<open>The invariant of the order table: one row for each set, each row a permutation.\<close>

definition permutation_invariant :: "lru_metadata \<Rightarrow> bool" where
  "permutation_invariant md \<longleftrightarrow>
     length (order md) = unat (num_sets md) \<and>
     (\<forall>row \<in> set (order md). is_permutation (associativity md) row)"

text \<open>
  A well-formed pair of metadata and cache: both have the same associativity, which is
  positive and within the range of the \<^verbatim>\<open>int\<close> counters of the code; the order table
  satisfies its invariant; the cache has \<open>num_sets * associativity\<close> lines, a number
  within the range of the \<^verbatim>\<open>uint32_t\<close> indices of the code.
\<close>

definition wf_lru :: "lru_metadata \<Rightarrow> cache_system \<Rightarrow> bool" where
  "wf_lru md cs \<longleftrightarrow>
     associativity md = cs_associativity cs \<and>
     0 < unat (associativity md) \<and> unat (associativity md) \<le> 2 ^ 31 \<and>
     permutation_invariant md \<and>
     length (cache_lines cs) = unat (num_sets md) * unat (associativity md) \<and>
     length (cache_lines cs) \<le> 2 ^ 32"

subsection \<open>A cache of two sets with four lines each\<close>

text \<open>
  In set 0 the lines 1 and 3 are clean and the lines 0 and 2 are dirty, and the order
  of set 0 is 3, 2, 1, 0 from the most to the least recently used line.
\<close>

definition example_cache :: cache_system where
  "example_cache = \<lparr>cs_associativity = 4, cache_lines =
     [\<lparr>tag = 10, status = OTHER 0\<rparr>, \<lparr>tag = 11, status = EXCLUSIVE\<rparr>,
      \<lparr>tag = 12, status = OTHER 0\<rparr>, \<lparr>tag = 13, status = EXCLUSIVE\<rparr>,
      \<lparr>tag = 20, status = OTHER 0\<rparr>, \<lparr>tag = 21, status = OTHER 0\<rparr>,
      \<lparr>tag = 22, status = INVALID\<rparr>, \<lparr>tag = 23, status = OTHER 0\<rparr>]\<rparr>"

definition example_metadata :: lru_metadata where
  "example_metadata =
     \<lparr>num_sets = 2, associativity = 4, order = [[3, 2, 1, 0], [0, 1, 2, 3]]\<rparr>"

definition example_policy :: "lru_metadata replacement_policy" where
  "example_policy = \<lparr>data = Some example_metadata\<rparr>"

section \<open>Properties\<close>

subsection \<open>Conversions between the integer types\<close>

lemma sint_word_of_nat: "sint (word_of_nat k :: u32) = signed_take_bit 31 (int k)"
  using signed_of_nat [where ?'b = 32 and ?'a = int and n = k] by simp

lemma int_of_u32_of_nat: "k < 2 ^ 31 \<Longrightarrow> int_of_u32 (word_of_nat k) = int k"
  unfolding int_of_u32_def sint_word_of_nat
  by (rule signed_take_bit_int_eq_self) simp_all

lemma sint_nonneg_uint:
  fixes w :: u32
  assumes "0 \<le> sint w"
  shows "sint w = uint w"
proof -
  have "sint w < 2 ^ 31" using sint_lt [of w] by simp
  then have "sint w < 2 ^ 32" by simp
  with assms have "take_bit 32 (sint w) = sint w"
    by (intro take_bit_int_eq_self)
  then show ?thesis using uint_sint [of w] by simp
qed

lemma int_of_u32_nonneg:
  assumes "k < 2 ^ 32" "0 \<le> int_of_u32 (word_of_nat k)"
  shows "int_of_u32 (word_of_nat k) = int k"
proof -
  have "unat (word_of_nat k :: u32) = k"
    using assms(1) by (simp add: unat_of_nat)
  then have "uint (word_of_nat k :: u32) = int k"
    by (metis of_nat_unat)
  then show ?thesis
    using sint_nonneg_uint [of "word_of_nat k"] assms(2) by (simp add: int_of_u32_def)
qed

lemma u32_of_int_of_nat: "u32_of_int (int k) = word_of_nat k"
  by (simp add: u32_of_int_def)

subsection \<open>The loops of the access functions\<close>

lemma find_line_found:
  assumes "k < assoc" "i \<le> k" "set_start + k < length cls"
    and "tag (cls ! (set_start + k)) = tg \<and> status (cls ! (set_start + k)) \<noteq> INVALID"
    and "\<forall>j. i \<le> j \<and> j < k \<longrightarrow>
           \<not> (tag (cls ! (set_start + j)) = tg \<and> status (cls ! (set_start + j)) \<noteq> INVALID)"
  shows "find_line cls set_start assoc tg i = Inr (int_of_u32 (word_of_nat k))"
  using assms
proof (induction cls set_start assoc tg i rule: find_line.induct)
  case (1 cls set_start assoc tg i)
  show ?case
  proof (cases "i = k")
    case True
    with "1.prems" show ?thesis by (subst find_line.simps) (simp add: rd_def)
  next
    case False
    with "1.prems" have lt: "i < k" by simp
    with "1.prems" have nm:
      "\<not> (tag (cls ! (set_start + i)) = tg \<and> status (cls ! (set_start + i)) \<noteq> INVALID)"
      by simp
    have r: "rd cls (set_start + i) = Inr (cls ! (set_start + i))"
      using lt "1.prems" by (simp add: rd_def)
    have "find_line cls set_start assoc tg (Suc i) = Inr (int_of_u32 (word_of_nat k))"
      using "1.IH" [OF _ r] nm lt "1.prems" by auto
    then show ?thesis using r nm lt "1.prems"(1) by (subst find_line.simps) auto
  qed
qed

lemma find_line_none:
  assumes "set_start + assoc \<le> length cls"
    and "\<forall>j. i \<le> j \<and> j < assoc \<longrightarrow>
           \<not> (tag (cls ! (set_start + j)) = tg \<and> status (cls ! (set_start + j)) \<noteq> INVALID)"
  shows "find_line cls set_start assoc tg i = Inr (- 1)"
  using assms
proof (induction cls set_start assoc tg i rule: find_line.induct)
  case (1 cls set_start assoc tg i)
  show ?case
  proof (cases "i < assoc")
    case True
    have r: "rd cls (set_start + i) = Inr (cls ! (set_start + i))"
      using True "1.prems" by (simp add: rd_def)
    have nm:
      "\<not> (tag (cls ! (set_start + i)) = tg \<and> status (cls ! (set_start + i)) \<noteq> INVALID)"
      using True "1.prems" by simp
    have "find_line cls set_start assoc tg (Suc i) = Inr (- 1)"
      using "1.IH" [OF True r] nm "1.prems" by auto
    then show ?thesis using r nm True by (subst find_line.simps) auto
  next
    case False
    then show ?thesis by (subst find_line.simps) simp
  qed
qed

lemma find_pos_found:
  assumes "k < assoc" "i \<le> k" "unat set_idx < length ord" "k < length (ord ! unat set_idx)"
    and "ord ! unat set_idx ! k = x"
    and "\<forall>j. i \<le> j \<and> j < k \<longrightarrow> ord ! unat set_idx ! j \<noteq> x"
  shows "find_pos ord set_idx assoc x i = Inr (int_of_u32 (word_of_nat k))"
  using assms
proof (induction ord set_idx assoc x i rule: find_pos.induct)
  case (1 ord set_idx assoc x i)
  have r: "rd ord (unat set_idx) = Inr (ord ! unat set_idx)"
    using "1.prems" by (simp add: rd_def)
  show ?case
  proof (cases "i = k")
    case True
    with "1.prems" r show ?thesis by (subst find_pos.simps) (simp add: rd_def)
  next
    case False
    with "1.prems" have lt: "i < k" by simp
    with "1.prems" have nm: "ord ! unat set_idx ! i \<noteq> x" by simp
    have r2: "rd (ord ! unat set_idx) i = Inr (ord ! unat set_idx ! i)"
      using lt "1.prems" by (simp add: rd_def)
    have "find_pos ord set_idx assoc x (Suc i) = Inr (int_of_u32 (word_of_nat k))"
      using "1.IH" [OF _ r r2] nm lt "1.prems" by auto
    then show ?thesis using r r2 nm lt "1.prems"(1) by (subst find_pos.simps) auto
  qed
qed

lemma find_pos_shape:
  assumes "find_pos ord set_idx assoc x i = Inr p"
  shows "p = - 1 \<or> (\<exists>k. k < assoc \<and> p = int_of_u32 (word_of_nat k) \<and>
           unat set_idx < length ord \<and> k < length (ord ! unat set_idx) \<and>
           ord ! unat set_idx ! k = x)"
  using assms
proof (induction ord set_idx assoc x i rule: find_pos.induct)
  case (1 ord set_idx assoc x i)
  show ?case
  proof (cases "i < assoc")
    case False
    with "1.prems" show ?thesis by (subst (asm) find_pos.simps) simp
  next
    case True
    from "1.prems" True obtain row y where
      r: "rd ord (unat set_idx) = Inr row" and r2: "rd row i = Inr y"
      by (subst (asm) find_pos.simps) (auto split: sum.splits)
    from r have s: "unat set_idx < length ord" "row = ord ! unat set_idx"
      by (auto simp: rd_def split: if_splits)
    from r2 have il: "i < length row" "y = row ! i"
      by (auto simp: rd_def split: if_splits)
    show ?thesis
    proof (cases "y = x")
      case True
      with "1.prems" r r2 \<open>i < assoc\<close> have "p = int_of_u32 (word_of_nat i)"
        by (subst (asm) find_pos.simps) simp
      with True s il \<open>i < assoc\<close> show ?thesis by auto
    next
      case False
      with "1.prems" r r2 \<open>i < assoc\<close> have "find_pos ord set_idx assoc x (Suc i) = Inr p"
        by (subst (asm) find_pos.simps) simp
      from "1.IH" [OF \<open>i < assoc\<close> r r2 False this] show ?thesis .
    qed
  qed
qed

lemma shift_loop_eq:
  assumes "0 \<le> i" "nat i < length row"
  shows "shift_loop row i = Inr (hd row # take (nat i) row @ drop (Suc (nat i)) row)"
  using assms
proof (induction row i rule: shift_loop.induct)
  case (1 row i)
  show ?case
  proof (cases "i > 0")
    case False
    with "1.prems" have "i = 0" by simp
    moreover from "1.prems" have "row \<noteq> []" by auto
    ultimately show ?thesis
      by (subst shift_loop.simps) (simp add: drop_Suc)
  next
    case True
    define n where "n = nat (i - 1)"
    have ni: "nat i = Suc n" using True by (simp add: n_def)
    have nl: "Suc n < length row" using "1.prems" ni by simp
    have r: "rd row (nat (i - 1)) = Inr (row ! n)"
      using nl by (simp add: rd_def n_def)
    have w: "wr row (nat i) (row ! n) = Inr (row[Suc n := row ! n])"
      using nl ni by (simp add: wr_def)
    have "shift_loop (row[Suc n := row ! n]) (i - 1) =
            Inr (hd (row[Suc n := row ! n]) # take (nat (i - 1)) (row[Suc n := row ! n])
                 @ drop (Suc (nat (i - 1))) (row[Suc n := row ! n]))"
      using "1.IH" [OF True r w] True nl by (simp add: n_def)
    also have "hd (row[Suc n := row ! n]) = hd row"
      using nl by (cases row) auto
    also have "take (nat (i - 1)) (row[Suc n := row ! n]) = take n row"
      by (simp add: n_def)
    also have "drop (Suc (nat (i - 1))) (row[Suc n := row ! n]) =
                 row ! n # drop (Suc (Suc n)) row"
      using nl by (simp add: n_def [symmetric] upd_conv_take_nth_drop)
    also have "take n row @ row ! n # drop (Suc (Suc n)) row =
                 take (Suc n) row @ drop (Suc (Suc n)) row"
      using nl by (simp add: take_Suc_conv_app_nth)
    finally show ?thesis
      using r w True ni by (subst shift_loop.simps) simp
  qed
qed

subsection \<open>What an access does to the metadata\<close>

lemma prefer_clean_access_eq:
  "lru_prefer_clean_cache_access rp cs set_idx tg = lru_cache_access rp cs set_idx tg"
  unfolding lru_prefer_clean_cache_access_def lru_cache_access_def ..

lemma lru_cache_access_miss:
  assumes "find_line (cache_lines cs) (unat (set_idx * cs_associativity cs))
             (unat (cs_associativity cs)) tg 0 = Inr (- 1)"
  shows "lru_cache_access rp cs set_idx tg = Inr rp"
  using assms by (simp add: lru_cache_access_def)

lemma lru_cache_access_hit:
  assumes fl: "find_line (cache_lines cs) (unat (set_idx * cs_associativity cs))
             (unat (cs_associativity cs)) tg 0 = Inr (int i)"
    and md: "data rp = Some md"
    and s: "unat set_idx < length (order md)"
    and p: "p < unat (associativity md)" "p < length (order md ! unat set_idx)" "p < 2 ^ 31"
    and at: "order md ! unat set_idx ! p = word_of_nat i"
    and first: "\<forall>j. j < p \<longrightarrow> order md ! unat set_idx ! j \<noteq> word_of_nat i"
  shows "lru_cache_access rp cs set_idx tg =
           Inr (rp\<lparr>data := Some (md\<lparr>order := (order md)[unat set_idx :=
              word_of_nat i # take p (order md ! unat set_idx)
                @ drop (Suc p) (order md ! unat set_idx)]\<rparr>)\<rparr>)"
proof -
  let ?row = "order md ! unat set_idx"
  have fp: "find_pos (order md) set_idx (unat (associativity md)) (word_of_nat i) 0 = Inr (int p)"
    using find_pos_found [of p "unat (associativity md)" 0 set_idx "order md" "word_of_nat i"]
      s p at first by (simp add: int_of_u32_of_nat)
  have r: "rd (order md) (unat set_idx) = Inr ?row"
    using s by (simp add: rd_def)
  have sh: "shift_loop ?row (int p) = Inr (hd ?row # take p ?row @ drop (Suc p) ?row)"
    using shift_loop_eq [of "int p" ?row] p by simp
  have w: "wr (hd ?row # take p ?row @ drop (Suc p) ?row) 0 (word_of_nat i) =
             Inr (word_of_nat i # take p ?row @ drop (Suc p) ?row)"
    by (simp add: wr_def)
  show ?thesis
    unfolding lru_cache_access_def Let_def
    by (simp add: fl md u32_of_int_of_nat fp r sh w)
qed

lemma lru_cache_access_shape:
  assumes "lru_cache_access rp cs set_idx tg = Inr rp'"
  shows "rp' = rp \<or>
    (\<exists>md p. data rp = Some md \<and> unat set_idx < length (order md) \<and>
       p < length (order md ! unat set_idx) \<and>
       rp' = rp\<lparr>data := Some (md\<lparr>order := (order md)[unat set_idx :=
                order md ! unat set_idx ! p # take p (order md ! unat set_idx)
                  @ drop (Suc p) (order md ! unat set_idx)]\<rparr>)\<rparr>)"
proof -
  from assms obtain a where
    fl: "find_line (cache_lines cs) (unat (set_idx * cs_associativity cs))
             (unat (cs_associativity cs)) tg 0 = Inr a"
    unfolding lru_cache_access_def Let_def by (auto split: sum.splits)
  show ?thesis
  proof (cases "a < 0")
    case True
    with assms fl show ?thesis by (simp add: lru_cache_access_def)
  next
    case False
    with assms fl obtain md where md: "data rp = Some md"
      unfolding lru_cache_access_def Let_def by (auto split: option.splits)
    with assms fl False obtain q where
      fp: "find_pos (order md) set_idx (unat (associativity md)) (u32_of_int a) 0 = Inr q"
      unfolding lru_cache_access_def Let_def by (auto split: sum.splits)
    show ?thesis
    proof (cases "q < 0")
      case True
      with assms fl \<open>\<not> a < 0\<close> md fp show ?thesis by (simp add: lru_cache_access_def)
    next
      case nonneg: False
      with find_pos_shape [OF fp] obtain k where
        k: "k < unat (associativity md)" "q = int_of_u32 (word_of_nat k)"
           "unat set_idx < length (order md)" "k < length (order md ! unat set_idx)"
           "order md ! unat set_idx ! k = u32_of_int a"
        by auto
      have "k < 2 ^ 32" using k(1) unsigned_less [where ?'a = nat, of "associativity md"] by simp
      with nonneg k(2) have q: "q = int k"
        using int_of_u32_nonneg [of k] by simp
      let ?row = "order md ! unat set_idx"
      have r: "rd (order md) (unat set_idx) = Inr ?row"
        using k(3) by (simp add: rd_def)
      have sh: "shift_loop ?row (int k) = Inr (hd ?row # take k ?row @ drop (Suc k) ?row)"
        using shift_loop_eq [of "int k" ?row] k(4) by simp
      have w: "wr (hd ?row # take k ?row @ drop (Suc k) ?row) 0 (u32_of_int a) =
             Inr (?row ! k # take k ?row @ drop (Suc k) ?row)"
        using k(5) by (simp add: wr_def)
      have "rp' = rp\<lparr>data := Some (md\<lparr>order := (order md)[unat set_idx :=
                ?row ! k # take k ?row @ drop (Suc k) ?row]\<rparr>)\<rparr>"
        using assms fl \<open>\<not> a < 0\<close> md fp nonneg q r sh w
        unfolding lru_cache_access_def Let_def by simp
      with md k show ?thesis by blast
    qed
  qed
qed

lemma mset_move_to_front:
  "p < length row \<Longrightarrow> mset (row ! p # take p row @ drop (Suc p) row) = mset row"
proof -
  assume "p < length row"
  then have "row = take p row @ row ! p # drop (Suc p) row"
    by (simp add: id_take_nth_drop [symmetric])
  then have "mset row = mset (take p row @ row ! p # drop (Suc p) row)" by simp
  then show ?thesis by simp
qed

subsection \<open>Well-formed metadata\<close>

lemma distinct_identity_row: "distinct (map (word_of_nat :: nat \<Rightarrow> u32) [0..<unat (a :: u32)])"
proof -
  have "inj_on (word_of_nat :: nat \<Rightarrow> u32) {0..<unat a}"
  proof (rule inj_onI)
    fix x y assume xy: "x \<in> {0..<unat a}" "y \<in> {0..<unat a}"
      and eq: "(word_of_nat x :: u32) = word_of_nat y"
    have "unat a < 2 ^ 32" using unsigned_less [where ?'a = nat, of a] by simp
    with xy have "x < 2 ^ 32" "y < 2 ^ 32" by auto
    then have "unat (word_of_nat x :: u32) = x" "unat (word_of_nat y :: u32) = y"
      by (simp_all add: unat_of_nat)
    with eq show "x = y" by metis
  qed
  then show ?thesis by (simp add: distinct_map)
qed

lemma is_permutation_facts:
  assumes "is_permutation a row"
  shows "length row = unat a" "distinct row" "set row = word_of_nat ` {0..<unat a}"
proof -
  from assms have m: "mset row = mset (map word_of_nat [0..<unat a])"
    by (simp add: is_permutation_def)
  from m have "size (mset row) = size (mset (map (word_of_nat :: nat \<Rightarrow> u32) [0..<unat a]))" by simp
  then show "length row = unat a" by simp
  from m show "distinct row"
    using distinct_identity_row [of a] by (metis mset_eq_imp_distinct_iff)
  from m have "set_mset (mset row) = set_mset (mset (map (word_of_nat :: nat \<Rightarrow> u32) [0..<unat a]))" by simp
  then show "set row = word_of_nat ` {0..<unat a}" by simp
qed

lemma wf_lru_row:
  assumes "wf_lru md cs" "set_idx < num_sets md"
  shows "unat set_idx < length (order md)"
    "is_permutation (associativity md) (order md ! unat set_idx)"
proof -
  show 1: "unat set_idx < length (order md)"
    using assms by (simp add: wf_lru_def permutation_invariant_def word_less_nat_alt)
  then have "order md ! unat set_idx \<in> set (order md)" by simp
  then show "is_permutation (associativity md) (order md ! unat set_idx)"
    using assms(1) unfolding wf_lru_def permutation_invariant_def by blast
qed

lemma wf_lru_set_start:
  assumes "wf_lru md cs" "set_idx < num_sets md"
  shows "unat (set_idx * cs_associativity cs) = unat set_idx * unat (cs_associativity cs)"
    "unat set_idx * unat (cs_associativity cs) + unat (cs_associativity cs) \<le> length (cache_lines cs)"
proof -
  let ?a = "unat (cs_associativity cs)"
  have a: "associativity md = cs_associativity cs" "0 < ?a"
    and len: "length (cache_lines cs) = unat (num_sets md) * ?a" "length (cache_lines cs) \<le> 2 ^ 32"
    using assms(1) unfolding wf_lru_def by auto
  have "Suc (unat set_idx) \<le> unat (num_sets md)"
    using assms(2) by (simp add: word_less_nat_alt)
  then have "Suc (unat set_idx) * ?a \<le> unat (num_sets md) * ?a"
    by (rule mult_le_mono1)
  then show le: "unat set_idx * ?a + ?a \<le> length (cache_lines cs)"
    using len by simp
  with a len have "unat set_idx * ?a < 2 ^ 32" by linarith
  then show "unat (set_idx * cs_associativity cs) = unat set_idx * ?a"
    using unat_mult_lem [of set_idx "cs_associativity cs"] by simp
qed

subsection \<open>Accesses return and keep the invariant\<close>

lemma find_line_total:
  assumes "set_start + assoc \<le> length cls"
  shows "\<exists>r. find_line cls set_start assoc tg i = Inr r"
  using assms
proof (induction cls set_start assoc tg i rule: find_line.induct)
  case (1 cls set_start assoc tg i)
  show ?case
  proof (cases "i < assoc")
    case False
    then show ?thesis by (subst find_line.simps) simp
  next
    case True
    have r: "rd cls (set_start + i) = Inr (cls ! (set_start + i))"
      using True "1.prems" by (simp add: rd_def)
    show ?thesis
    proof (cases "tag (cls ! (set_start + i)) = tg \<and> status (cls ! (set_start + i)) \<noteq> INVALID")
      case True
      with r \<open>i < assoc\<close> show ?thesis by (subst find_line.simps) simp
    next
      case False
      from "1.IH" [OF \<open>i < assoc\<close> r False "1.prems"] r False \<open>i < assoc\<close>
      show ?thesis by (subst find_line.simps) simp
    qed
  qed
qed

lemma find_pos_total:
  assumes "unat set_idx < length ord" "assoc \<le> length (ord ! unat set_idx)"
  shows "\<exists>p. find_pos ord set_idx assoc x i = Inr p"
  using assms
proof (induction ord set_idx assoc x i rule: find_pos.induct)
  case (1 ord set_idx assoc x i)
  show ?case
  proof (cases "i < assoc")
    case False
    then show ?thesis by (subst find_pos.simps) simp
  next
    case True
    have r: "rd ord (unat set_idx) = Inr (ord ! unat set_idx)"
      using "1.prems" by (simp add: rd_def)
    have r2: "rd (ord ! unat set_idx) i = Inr (ord ! unat set_idx ! i)"
      using True "1.prems" by (simp add: rd_def)
    show ?thesis
    proof (cases "ord ! unat set_idx ! i = x")
      case True
      with r r2 \<open>i < assoc\<close> show ?thesis by (subst find_pos.simps) simp
    next
      case False
      from "1.IH" [OF \<open>i < assoc\<close> r r2 False "1.prems"] r r2 False \<open>i < assoc\<close>
      show ?thesis by (subst find_pos.simps) simp
    qed
  qed
qed

lemma lru_cache_access_total:
  assumes range: "unat (set_idx * cs_associativity cs) + unat (cs_associativity cs)
                    \<le> length (cache_lines cs)"
    and md: "data rp = Some md"
    and s: "unat set_idx < length (order md)"
    and len: "unat (associativity md) \<le> length (order md ! unat set_idx)"
  shows "\<exists>rp'. lru_cache_access rp cs set_idx tg = Inr rp'"
proof -
  from find_line_total [OF range] obtain a where
    fl: "find_line (cache_lines cs) (unat (set_idx * cs_associativity cs))
             (unat (cs_associativity cs)) tg 0 = Inr a" by blast
  from find_pos_total [OF s len] obtain q where
    fp: "find_pos (order md) set_idx (unat (associativity md)) (u32_of_int a) 0 = Inr q"
    by blast
  show ?thesis
  proof (cases "a < 0 \<or> q < 0")
    case True
    with fl fp md show ?thesis by (auto simp: lru_cache_access_def)
  next
    case False
    with find_pos_shape [OF fp] obtain k where
      k: "k < unat (associativity md)" "q = int_of_u32 (word_of_nat k)"
         "k < length (order md ! unat set_idx)"
      by auto
    have "k < 2 ^ 32" using k(1) unsigned_less [where ?'a = nat, of "associativity md"] by simp
    with False k(2) have q: "q = int k"
      using int_of_u32_nonneg [of k] by simp
    let ?row = "order md ! unat set_idx"
    have r: "rd (order md) (unat set_idx) = Inr ?row"
      using s by (simp add: rd_def)
    have sh: "shift_loop ?row (int k) = Inr (hd ?row # take k ?row @ drop (Suc k) ?row)"
      using shift_loop_eq [of "int k" ?row] k(3) by simp
    show ?thesis
      using fl fp md False q r sh
      unfolding lru_cache_access_def Let_def by (simp add: wr_def)
  qed
qed

lemma permutation_move_to_front:
  assumes "is_permutation a row" "p < length row"
  shows "is_permutation a (row ! p # take p row @ drop (Suc p) row)"
  using assms mset_move_to_front [of p row] by (simp add: is_permutation_def)

lemma lru_cache_access_invariant:
  assumes acc: "lru_cache_access rp cs set_idx tg = Inr rp'"
    and md: "data rp = Some md" and inv: "permutation_invariant md"
  shows "\<exists>md'. data rp' = Some md' \<and> num_sets md' = num_sets md \<and>
           associativity md' = associativity md \<and> permutation_invariant md'"
proof -
  from lru_cache_access_shape [OF acc] show ?thesis
  proof
    assume "rp' = rp"
    with md inv show ?thesis by simp
  next
    assume "\<exists>md p. data rp = Some md \<and> unat set_idx < length (order md) \<and>
       p < length (order md ! unat set_idx) \<and>
       rp' = rp\<lparr>data := Some (md\<lparr>order := (order md)[unat set_idx :=
                order md ! unat set_idx ! p # take p (order md ! unat set_idx)
                  @ drop (Suc p) (order md ! unat set_idx)]\<rparr>)\<rparr>"
    with md obtain p where s: "unat set_idx < length (order md)"
      and p: "p < length (order md ! unat set_idx)"
      and rp': "rp' = rp\<lparr>data := Some (md\<lparr>order := (order md)[unat set_idx :=
                order md ! unat set_idx ! p # take p (order md ! unat set_idx)
                  @ drop (Suc p) (order md ! unat set_idx)]\<rparr>)\<rparr>"
      by auto
    let ?row = "order md ! unat set_idx"
    let ?row' = "?row ! p # take p ?row @ drop (Suc p) ?row"
    have "?row \<in> set (order md)" using s by simp
    with inv have "is_permutation (associativity md) ?row"
      by (simp add: permutation_invariant_def)
    then have new: "is_permutation (associativity md) ?row'"
      using p by (rule permutation_move_to_front)
    have "\<forall>row \<in> set ((order md)[unat set_idx := ?row']). is_permutation (associativity md) row"
    proof
      fix row assume "row \<in> set ((order md)[unat set_idx := ?row'])"
      then have "row = ?row' \<or> row \<in> set (order md)"
        using set_update_subset_insert [of "order md" "unat set_idx" ?row'] by auto
      with new inv show "is_permutation (associativity md) row"
        by (auto simp: permutation_invariant_def)
    qed
    with inv have "permutation_invariant (md\<lparr>order := (order md)[unat set_idx := ?row']\<rparr>)"
      by (simp add: permutation_invariant_def)
    with rp' show ?thesis by simp
  qed
qed

lemma new_order_replicate:
  "map (\<lambda>s. map word_of_nat [0..<unat assoc]) [0..<n] =
     replicate n (map (word_of_nat :: nat \<Rightarrow> u32) [0..<unat (assoc :: u32)])"
  by (simp add: map_replicate_const)

lemma new_result:
  assumes "lru_replacement_policy_new malloc_ok sets assoc = Inr (Some rp0)"
  shows "rp0 = \<lparr>data = Some \<lparr>num_sets = sets, associativity = assoc,
           order = replicate (unat sets) (map word_of_nat [0..<unat assoc])\<rparr>\<rparr>"
  using assms unfolding lru_replacement_policy_new_def
  by (simp add: new_order_replicate split: if_splits)

lemma identity_table_invariant:
  "permutation_invariant \<lparr>num_sets = sets, associativity = assoc,
           order = replicate (unat sets) (map word_of_nat [0..<unat assoc])\<rparr>"
  by (simp add: permutation_invariant_def is_permutation_def)

lemma wf_lru_access:
  assumes wf: "wf_lru md cs" and md: "data rp = Some md" and s: "set_idx < num_sets md"
  shows "\<exists>rp' md'. lru_cache_access rp cs set_idx tg = Inr rp' \<and> data rp' = Some md' \<and>
           wf_lru md' cs"
proof -
  have a: "associativity md = cs_associativity cs" and inv: "permutation_invariant md"
    using wf unfolding wf_lru_def by auto
  note row = is_permutation_facts [OF wf_lru_row(2) [OF wf s]]
  note start = wf_lru_set_start [OF wf s]
  have "\<exists>rp'. lru_cache_access rp cs set_idx tg = Inr rp'"
    using start row(1) by (intro lru_cache_access_total [OF _ md wf_lru_row(1) [OF wf s]]) simp_all
  then obtain rp' where acc: "lru_cache_access rp cs set_idx tg = Inr rp'" ..
  from lru_cache_access_invariant [OF acc md inv] obtain md' where
    md': "data rp' = Some md'" "num_sets md' = num_sets md"
      "associativity md' = associativity md" "permutation_invariant md'" by blast
  with wf have "wf_lru md' cs" unfolding wf_lru_def by auto
  with acc md' show ?thesis by blast
qed

subsection \<open>An access with a resident tag\<close>

lemma lru_cache_access_resolved:
  assumes wf: "wf_lru md cs" and rp: "data rp = Some md" and s: "set_idx < num_sets md"
    and res: "resolves cs set_idx tg i"
    and p: "p < length (order md ! unat set_idx)" "order md ! unat set_idx ! p = word_of_nat i"
  shows "lru_cache_access rp cs set_idx tg =
           Inr (rp\<lparr>data := Some (md\<lparr>order := (order md)[unat set_idx :=
              word_of_nat i # take p (order md ! unat set_idx)
                @ drop (Suc p) (order md ! unat set_idx)]\<rparr>)\<rparr>)"
proof -
  let ?row = "order md ! unat set_idx"
  let ?a = "unat (cs_associativity cs)"
  have a: "associativity md = cs_associativity cs" "?a \<le> 2 ^ 31"
    using wf unfolding wf_lru_def by auto
  note row = is_permutation_facts [OF wf_lru_row(2) [OF wf s]]
  note start = wf_lru_set_start [OF wf s]
  from res have i: "i < ?a"
    and hit: "tag (set_line cs set_idx i) = tg \<and> status (set_line cs set_idx i) \<noteq> INVALID"
    and before: "\<forall>j. j < i \<longrightarrow>
       \<not> (tag (set_line cs set_idx j) = tg \<and> status (set_line cs set_idx j) \<noteq> INVALID)"
    by (auto simp: resolves_def matches_def)
  have i31: "i < 2 ^ 31" using i a(2) by simp
  have "find_line (cache_lines cs) (unat set_idx * ?a) ?a tg 0 = Inr (int_of_u32 (word_of_nat i))"
    using i hit before start(2)
    by (intro find_line_found) (auto simp: set_line_def)
  then have fl: "find_line (cache_lines cs) (unat (set_idx * cs_associativity cs)) ?a tg 0 =
                   Inr (int i)"
    using i31 by (simp add: start(1) int_of_u32_of_nat)
  have first: "\<forall>j. j < p \<longrightarrow> ?row ! j \<noteq> word_of_nat i"
  proof (intro allI impI)
    fix j assume "j < p"
    then have "j < length ?row" "j \<noteq> p" using p(1) by simp_all
    then have "?row ! j \<noteq> ?row ! p"
      using row(2) p(1) by (simp add: nth_eq_iff_index_eq)
    then show "?row ! j \<noteq> word_of_nat i" using p(2) by simp
  qed
  have pa: "p < unat (associativity md)" using p(1) row(1) by simp
  then have p31: "p < 2 ^ 31" using a by simp
  show ?thesis
    using lru_cache_access_hit [OF fl rp wf_lru_row(1) [OF wf s] pa p(1) p31 p(2) first] .
qed

lemma lru_cache_access_step:
  assumes wf: "wf_lru md cs" and rp: "data rp = Some md" and s: "set_idx < num_sets md"
    and res: "resolves cs set_idx tg i"
    and row: "order md ! unat set_idx = row"
    and p: "p < length row" "row ! p = word_of_nat i"
  shows "\<exists>rp' md'. lru_cache_access rp cs set_idx tg = Inr rp' \<and> data rp' = Some md' \<and>
           wf_lru md' cs \<and> num_sets md' = num_sets md \<and>
           associativity md' = associativity md \<and>
           order md' ! unat set_idx = word_of_nat i # take p row @ drop (Suc p) row"
proof -
  let ?md' = "md\<lparr>order := (order md)[unat set_idx :=
                 word_of_nat i # take p row @ drop (Suc p) row]\<rparr>"
  have acc: "lru_cache_access rp cs set_idx tg = Inr (rp\<lparr>data := Some ?md'\<rparr>)"
    using lru_cache_access_resolved [OF wf rp s res] p row by simp
  from wf_lru_access [OF wf rp s, of tg] acc have "wf_lru ?md' cs" by auto
  moreover have "order ?md' ! unat set_idx = word_of_nat i # take p row @ drop (Suc p) row"
    using wf_lru_row(1) [OF wf s] by simp
  ultimately show ?thesis using acc by simp
qed

subsection \<open>The scan for a clean line\<close>

lemma pc_scan_result:
  assumes "unat set_idx < length ord" "- 1 \<le> i" "i < int (length (ord ! unat set_idx))"
    and "\<forall>q. int q \<le> i \<longrightarrow> unat (set_idx * assoc + ord ! unat set_idx ! q) < length cls"
  shows "(\<exists>p. int p \<le> i \<and>
            pc_scan ord cls set_idx assoc i = Inr (Some (ord ! unat set_idx ! p)) \<and>
            status (cls ! unat (set_idx * assoc + ord ! unat set_idx ! p)) = EXCLUSIVE \<and>
            (\<forall>q. p < q \<and> int q \<le> i \<longrightarrow>
               status (cls ! unat (set_idx * assoc + ord ! unat set_idx ! q)) \<noteq> EXCLUSIVE)) \<or>
         (pc_scan ord cls set_idx assoc i = Inr None \<and>
            (\<forall>q. int q \<le> i \<longrightarrow>
               status (cls ! unat (set_idx * assoc + ord ! unat set_idx ! q)) \<noteq> EXCLUSIVE))"
  using assms
proof (induction ord cls set_idx assoc i rule: pc_scan.induct)
  case (1 ord cls set_idx assoc i)
  let ?row = "ord ! unat set_idx"
  let ?g = "\<lambda>q. unat (set_idx * assoc + ?row ! q)"
  show ?case
  proof (cases "i \<ge> 0")
    case False
    then have "pc_scan ord cls set_idx assoc i = Inr None"
      by (subst pc_scan.simps) simp
    moreover from False have "\<forall>q. \<not> int q \<le> i" by auto
    ultimately show ?thesis by simp
  next
    case True
    define n where "n = nat i"
    have i: "i = int n" using True by (simp add: n_def)
    have r: "rd ord (unat set_idx) = Inr ?row"
      using "1.prems"(1) by (simp add: rd_def)
    have r2: "rd ?row (nat i) = Inr (?row ! n)"
      using "1.prems"(3) i by (simp add: rd_def)
    have r3: "rd cls (?g n) = Inr (cls ! ?g n)"
      using "1.prems"(4) i by (simp add: rd_def)
    show ?thesis
    proof (cases "status (cls ! ?g n) = EXCLUSIVE")
      case ex: True
      have "pc_scan ord cls set_idx assoc i = Inr (Some (?row ! n))"
        using True r r2 r3 ex by (subst pc_scan.simps) simp
      with ex i show ?thesis by auto
    next
      case nex: False
      have step: "pc_scan ord cls set_idx assoc i = pc_scan ord cls set_idx assoc (i - 1)"
        using True r r2 r3 nex by (subst pc_scan.simps) simp
      have le: "\<And>q. int q \<le> i \<longleftrightarrow> int q \<le> i - 1 \<or> q = n"
        using i by auto
      have "(\<exists>p. int p \<le> i - 1 \<and>
            pc_scan ord cls set_idx assoc (i - 1) = Inr (Some (?row ! p)) \<and>
            status (cls ! ?g p) = EXCLUSIVE \<and>
            (\<forall>q. p < q \<and> int q \<le> i - 1 \<longrightarrow> status (cls ! ?g q) \<noteq> EXCLUSIVE)) \<or>
         (pc_scan ord cls set_idx assoc (i - 1) = Inr None \<and>
            (\<forall>q. int q \<le> i - 1 \<longrightarrow> status (cls ! ?g q) \<noteq> EXCLUSIVE))"
        using "1.prems" True
        by (intro "1.IH" [OF True r r2 r3 nex]) auto
      then show ?thesis
      proof
        assume "\<exists>p. int p \<le> i - 1 \<and>
            pc_scan ord cls set_idx assoc (i - 1) = Inr (Some (?row ! p)) \<and>
            status (cls ! ?g p) = EXCLUSIVE \<and>
            (\<forall>q. p < q \<and> int q \<le> i - 1 \<longrightarrow> status (cls ! ?g q) \<noteq> EXCLUSIVE)"
        then obtain p where p: "int p \<le> i - 1"
            "pc_scan ord cls set_idx assoc (i - 1) = Inr (Some (?row ! p))"
            "status (cls ! ?g p) = EXCLUSIVE"
            "\<forall>q. p < q \<and> int q \<le> i - 1 \<longrightarrow> status (cls ! ?g q) \<noteq> EXCLUSIVE"
          by blast
        have "\<forall>q. p < q \<and> int q \<le> i \<longrightarrow> status (cls ! ?g q) \<noteq> EXCLUSIVE"
          using p(4) nex le by blast
        moreover have "int p \<le> i" using p(1) by simp
        ultimately show ?thesis using p(2,3) step by auto
      next
        assume n: "pc_scan ord cls set_idx assoc (i - 1) = Inr None \<and>
            (\<forall>q. int q \<le> i - 1 \<longrightarrow> status (cls ! ?g q) \<noteq> EXCLUSIVE)"
        then have "\<forall>q. int q \<le> i \<longrightarrow> status (cls ! ?g q) \<noteq> EXCLUSIVE"
          using nex le by blast
        with n step show ?thesis by simp
      qed
    qed
  qed
qed

lemma unat_pred: "0 < unat (a :: u32) \<Longrightarrow> unat (a - 1) = unat a - 1"
  by (simp add: unat_sub word_le_nat_alt)

lemma int_of_u32_pred:
  assumes "0 < unat a" "unat a \<le> 2 ^ 31"
  shows "int_of_u32 (a - 1) = int (unat a) - 1"
proof -
  have "unat (a - 1) = unat a - 1" using assms(1) by (rule unat_pred)
  then have "a - 1 = word_of_nat (unat a - 1)"
    by (metis of_nat_unat ucast_id)
  moreover have "unat a - 1 < 2 ^ 31" using assms by simp
  ultimately show ?thesis
    using int_of_u32_of_nat [of "unat a - 1"] assms(1) by simp
qed

lemma permutation_entry:
  assumes "is_permutation a row" "q < length row"
  shows "unat (row ! q) < unat a"
proof -
  from assms have "row ! q \<in> word_of_nat ` {0..<unat a}"
    using is_permutation_facts(3) [OF assms(1)] by (metis nth_mem)
  then obtain k where k: "k < unat a" "row ! q = word_of_nat k" by auto
  have "k < 2 ^ 32" using k(1) unsigned_less [where ?'a = nat, of a] by simp
  then have "unat (word_of_nat k :: u32) = k" by (simp add: unat_of_nat)
  with k show ?thesis by simp
qed

lemma permutation_position:
  assumes "is_permutation a row" "i < unat a"
  shows "\<exists>q<length row. unat (row ! q) = i"
proof -
  have "word_of_nat i \<in> set row"
    using is_permutation_facts(3) [OF assms(1)] assms(2) by auto
  then obtain q where q: "q < length row" "row ! q = word_of_nat i"
    by (auto simp: in_set_conv_nth)
  have "i < 2 ^ 32" using assms(2) unsigned_less [where ?'a = nat, of a] by simp
  then have "unat (word_of_nat i :: u32) = i" by (simp add: unat_of_nat)
  with q show ?thesis by auto
qed

lemma wf_lru_global_idx:
  assumes wf: "wf_lru md cs" and s: "set_idx < num_sets md"
    and q: "q < unat (associativity md)"
  shows "unat (set_idx * associativity md + order md ! unat set_idx ! q) < length (cache_lines cs)"
    "cache_lines cs ! unat (set_idx * associativity md + order md ! unat set_idx ! q) =
       set_line cs set_idx (unat (order md ! unat set_idx ! q))"
proof -
  let ?row = "order md ! unat set_idx"
  let ?a = "unat (cs_associativity cs)"
  have a: "associativity md = cs_associativity cs" and size: "length (cache_lines cs) \<le> 2 ^ 32"
    using wf unfolding wf_lru_def by auto
  note perm = wf_lru_row(2) [OF wf s]
  note start = wf_lru_set_start [OF wf s]
  have "q < length ?row" using q is_permutation_facts(1) [OF perm] by simp
  from permutation_entry [OF perm this] have e: "unat (?row ! q) < ?a" using a by simp
  then have lt: "unat set_idx * ?a + unat (?row ! q) < length (cache_lines cs)"
    using start(2) by linarith
  then have "unat (set_idx * cs_associativity cs) + unat (?row ! q) < 2 ^ 32"
    using size start(1) by simp
  then have "unat (set_idx * cs_associativity cs + ?row ! q) =
               unat (set_idx * cs_associativity cs) + unat (?row ! q)"
    using unat_add_lem [of "set_idx * cs_associativity cs" "?row ! q"] by simp
  then have g: "unat (set_idx * associativity md + ?row ! q) = unat set_idx * ?a + unat (?row ! q)"
    using start(1) a by simp
  show "unat (set_idx * associativity md + ?row ! q) < length (cache_lines cs)"
    using g lt by simp
  show "cache_lines cs ! unat (set_idx * associativity md + ?row ! q) =
       set_line cs set_idx (unat (?row ! q))"
    using g by (simp add: set_line_def)
qed

subsection \<open>The example cache is well formed\<close>

lemma example_wf: "wf_lru example_metadata example_cache"
  by (simp add: wf_lru_def permutation_invariant_def example_metadata_def example_cache_def
      is_permutation_def upt_rec)

lemma example_resolves: "resolves example_cache 0 11 1"
  by (simp add: resolves_def example_cache_def matches_def set_line_def upt_rec)

lemma example_access:
  "lru_cache_access example_policy example_cache 0 11 =
     Inr \<lparr>data = Some \<lparr>num_sets = 2, associativity = 4, order = [[1, 3, 2, 0], [0, 1, 2, 3]]\<rparr>\<rparr>"
  by (simp add: lru_cache_access_def find_line.simps find_pos.simps shift_loop.simps rd_def wr_def
      int_of_u32_def u32_of_int_def example_policy_def example_metadata_def example_cache_def)

lemma example_new:
  "lru_replacement_policy_new (\<lambda>k. True) 2 4 =
     Inr (Some \<lparr>data = Some \<lparr>num_sets = 2, associativity = 4,
       order = [[0, 1, 2, 3], [0, 1, 2, 3]]\<rparr>\<rparr>)"
  by (simp add: lru_replacement_policy_new_def upt_rec)

lemma example_eviction:
  "lru_eviction_index example_policy example_cache 0 = Inr (0, example_policy)"
  "lru_prefer_clean_eviction_index example_policy example_cache 0 = Inr (1, example_policy)"
  by (simp_all add: lru_eviction_index_def lru_prefer_clean_eviction_index_def pc_scan.simps
      rd_def int_of_u32_def example_policy_def example_metadata_def example_cache_def)

lemma example_rand:
  "rand_eviction_index \<lparr>data = Some \<lparr>rand_num_sets = 2, rand_associativity = 4\<rparr>\<rparr>
     example_cache 0 1234567 =
     Inr (3, \<lparr>data = Some \<lparr>rand_num_sets = 2, rand_associativity = 4\<rparr>\<rparr>)"
  by (simp add: rand_eviction_index_def u32_of_int_def)

subsection \<open>Move to front\<close>

text \<open>
  C1. Let the metadata and the cache be well formed, \<open>set_idx\<close> a set of the cache, and let
  \<open>tg\<close> resolve to the local index \<open>i\<close> of that set. Then \<open>i\<close> stands at some position
  \<open>p\<close> of the set's order, and after \<^verbatim>\<open>lru_cache_access\<close>, and after
  \<^verbatim>\<open>lru_prefer_clean_cache_access\<close> as well, the set's order is \<open>i\<close>, followed by the
  entries that stood at the positions \<open>0\<close> to \<open>p - 1\<close>, followed by the entries behind
  position \<open>p\<close>: position 0 holds \<open>i\<close>, and position \<open>k + 1\<close> holds what position \<open>k\<close>
  held, for every \<open>k < p\<close>. No other row of the table changes.
\<close>

theorem record_access_move_to_front:
  assumes wf: "wf_lru md cs" and rp: "data rp = Some md" and s: "set_idx < num_sets md"
    and res: "resolves cs set_idx tg i"
  shows "\<exists>p row'. p < unat (associativity md) \<and>
           order md ! unat set_idx ! p = word_of_nat i \<and>
           row' = word_of_nat i # take p (order md ! unat set_idx)
                    @ drop (Suc p) (order md ! unat set_idx) \<and>
           row' ! 0 = word_of_nat i \<and>
           (\<forall>k<p. row' ! Suc k = order md ! unat set_idx ! k) \<and>
           lru_cache_access rp cs set_idx tg =
             Inr (rp\<lparr>data := Some (md\<lparr>order := (order md)[unat set_idx := row']\<rparr>)\<rparr>) \<and>
           lru_prefer_clean_cache_access rp cs set_idx tg =
             Inr (rp\<lparr>data := Some (md\<lparr>order := (order md)[unat set_idx := row']\<rparr>)\<rparr>)"
proof -
  let ?row = "order md ! unat set_idx"
  note row = is_permutation_facts [OF wf_lru_row(2) [OF wf s]]
  have a: "associativity md = cs_associativity cs"
    using wf unfolding wf_lru_def by auto
  from res have i: "i < unat (cs_associativity cs)"
    by (simp add: resolves_def)
  have "word_of_nat i \<in> set ?row" using row(3) i a by auto
  then obtain p where p: "p < length ?row" "?row ! p = word_of_nat i"
    by (auto simp: in_set_conv_nth)
  have pa: "p < unat (associativity md)" using p(1) row(1) by simp
  let ?row' = "word_of_nat i # take p ?row @ drop (Suc p) ?row"
  have acc: "lru_cache_access rp cs set_idx tg =
             Inr (rp\<lparr>data := Some (md\<lparr>order := (order md)[unat set_idx := ?row']\<rparr>)\<rparr>)"
    using lru_cache_access_resolved [OF wf rp s res p] .
  have shifted: "\<forall>k<p. ?row' ! Suc k = ?row ! k"
    using p(1) by (simp add: nth_append)
  show ?thesis
    apply (rule exI [of _ p], rule exI [of _ ?row'])
    using pa p(2) acc shifted by (simp add: prefer_clean_access_eq)
qed

theorem record_access_move_to_front_witness:
  "wf_lru example_metadata example_cache \<and> data example_policy = Some example_metadata \<and>
   (0 :: u32) < num_sets example_metadata \<and> resolves example_cache 0 11 1 \<and>
   lru_cache_access example_policy example_cache 0 11 =
     Inr \<lparr>data = Some \<lparr>num_sets = 2, associativity = 4, order = [[1, 3, 2, 0], [0, 1, 2, 3]]\<rparr>\<rparr>"
proof -
  have h: "wf_lru example_metadata example_cache" "data example_policy = Some example_metadata"
    "(0 :: u32) < num_sets example_metadata" "resolves example_cache 0 11 1"
    using example_wf example_resolves by (simp_all add: example_policy_def example_metadata_def)
  from record_access_move_to_front [OF h] obtain p row' where
    p: "p < unat (associativity example_metadata)" "order example_metadata ! unat (0::u32) ! p = word_of_nat 1"
    and r: "row' = word_of_nat 1 # take p (order example_metadata ! unat (0::u32))
                    @ drop (Suc p) (order example_metadata ! unat (0::u32))"
    and acc: "lru_cache_access example_policy example_cache 0 11 =
             Inr (example_policy\<lparr>data := Some (example_metadata\<lparr>order := (order example_metadata)[unat (0::u32) := row']\<rparr>)\<rparr>)"
    by blast
  have "unat (associativity example_metadata) = 4"
    by (simp add: example_metadata_def)
  with p(1) have "p = 0 \<or> p = 1 \<or> p = 2 \<or> p = 3" by arith
  with p(2) have "p = 2"
    by (auto simp: example_metadata_def)
  with r acc h show ?thesis
    by (simp add: example_metadata_def example_policy_def)
qed

subsection \<open>The permutation invariant\<close>

text \<open>
  C2. When every allocation succeeds, both constructors return a policy. The policy that
  a constructor of LRU or of LRU-Prefer-Clean returns has one row for each set, every
  row the identity order 0, 1, ..., assoc - 1, and so satisfies the invariant: each row is
  a permutation of the local indices below the associativity. Every
  \<^verbatim>\<open>lru_cache_access\<close> and \<^verbatim>\<open>lru_prefer_clean_cache_access\<close> that returns keeps the
  invariant, the number of sets and the associativity. On well-formed metadata and cache
  and a set of the cache, the call does return, and what it returns is well formed.
\<close>

theorem order_table_permutation_invariant:
  "((\<forall>k. malloc_ok k) \<longrightarrow> (\<exists>rp0. lru_replacement_policy_new malloc_ok sets assoc = Inr (Some rp0)) \<and>
      (\<exists>rp0. lru_prefer_clean_replacement_policy_new malloc_ok sets assoc = Inr (Some rp0))) \<and>
   (lru_replacement_policy_new malloc_ok sets assoc = Inr (Some rp0) \<or>
    lru_prefer_clean_replacement_policy_new malloc_ok sets assoc = Inr (Some rp0) \<longrightarrow>
      (\<exists>md0. data rp0 = Some md0 \<and> num_sets md0 = sets \<and> associativity md0 = assoc \<and>
         order md0 = replicate (unat sets) (map word_of_nat [0..<unat assoc]) \<and>
         permutation_invariant md0)) \<and>
   (data rp = Some md \<and> permutation_invariant md \<and>
    (lru_cache_access rp cs set_idx tg = Inr rp' \<or>
     lru_prefer_clean_cache_access rp cs set_idx tg = Inr rp') \<longrightarrow>
      (\<exists>md'. data rp' = Some md' \<and> num_sets md' = num_sets md \<and>
         associativity md' = associativity md \<and> permutation_invariant md')) \<and>
   (wf_lru md cs \<and> data rp = Some md \<and> set_idx < num_sets md \<longrightarrow>
      (\<exists>rp' md'. lru_cache_access rp cs set_idx tg = Inr rp' \<and>
         lru_prefer_clean_cache_access rp cs set_idx tg = Inr rp' \<and>
         data rp' = Some md' \<and> wf_lru md' cs))"
proof (intro conjI impI)
  assume "\<forall>k. malloc_ok k"
  then show "\<exists>rp0. lru_replacement_policy_new malloc_ok sets assoc = Inr (Some rp0)"
    by (simp add: lru_replacement_policy_new_def list_ex_iff)
next
  assume "\<forall>k. malloc_ok k"
  then show "\<exists>rp0. lru_prefer_clean_replacement_policy_new malloc_ok sets assoc = Inr (Some rp0)"
    by (simp add: lru_prefer_clean_replacement_policy_new_def list_ex_iff)
next
  assume "lru_replacement_policy_new malloc_ok sets assoc = Inr (Some rp0) \<or>
    lru_prefer_clean_replacement_policy_new malloc_ok sets assoc = Inr (Some rp0)"
  then have "lru_replacement_policy_new malloc_ok sets assoc = Inr (Some rp0)"
    by (simp add: lru_replacement_policy_new_def lru_prefer_clean_replacement_policy_new_def)
  from new_result [OF this] show "\<exists>md0. data rp0 = Some md0 \<and> num_sets md0 = sets \<and>
         associativity md0 = assoc \<and>
         order md0 = replicate (unat sets) (map word_of_nat [0..<unat assoc]) \<and>
         permutation_invariant md0"
    using identity_table_invariant [of sets assoc] by simp
next
  assume h: "data rp = Some md \<and> permutation_invariant md \<and>
    (lru_cache_access rp cs set_idx tg = Inr rp' \<or>
     lru_prefer_clean_cache_access rp cs set_idx tg = Inr rp')"
  then have "lru_cache_access rp cs set_idx tg = Inr rp'"
    by (simp add: prefer_clean_access_eq)
  with h show "\<exists>md'. data rp' = Some md' \<and> num_sets md' = num_sets md \<and>
         associativity md' = associativity md \<and> permutation_invariant md'"
    using lru_cache_access_invariant [of rp cs set_idx tg rp' md] by blast
next
  assume "wf_lru md cs \<and> data rp = Some md \<and> set_idx < num_sets md"
  then show "\<exists>rp' md'. lru_cache_access rp cs set_idx tg = Inr rp' \<and>
         lru_prefer_clean_cache_access rp cs set_idx tg = Inr rp' \<and>
         data rp' = Some md' \<and> wf_lru md' cs"
    using wf_lru_access [of md cs rp set_idx tg] by (simp add: prefer_clean_access_eq)
qed


theorem order_table_permutation_invariant_witness:
  "lru_replacement_policy_new (\<lambda>k. True) 2 4 =
     Inr (Some \<lparr>data = Some \<lparr>num_sets = 2, associativity = 4,
       order = [[0, 1, 2, 3], [0, 1, 2, 3]]\<rparr>\<rparr>) \<and>
   permutation_invariant \<lparr>num_sets = 2, associativity = 4, order = [[0, 1, 2, 3], [0, 1, 2, 3]]\<rparr> \<and>
   data example_policy = Some example_metadata \<and> permutation_invariant example_metadata \<and>
   lru_cache_access example_policy example_cache 0 11 =
     Inr \<lparr>data = Some \<lparr>num_sets = 2, associativity = 4, order = [[1, 3, 2, 0], [0, 1, 2, 3]]\<rparr>\<rparr> \<and>
   permutation_invariant \<lparr>num_sets = 2, associativity = 4, order = [[1, 3, 2, 0], [0, 1, 2, 3]]\<rparr>"
proof -
  note t = order_table_permutation_invariant [where malloc_ok = "\<lambda>k. True" and sets = 2
    and assoc = 4
    and ?rp0.0 = "\<lparr>data = Some \<lparr>num_sets = 2, associativity = 4,
       order = [[0, 1, 2, 3], [0, 1, 2, 3]]\<rparr>\<rparr>"
    and rp = example_policy and md = example_metadata and cs = example_cache
    and set_idx = 0 and tg = 11
    and rp' = "\<lparr>data = Some \<lparr>num_sets = 2, associativity = 4,
       order = [[1, 3, 2, 0], [0, 1, 2, 3]]\<rparr>\<rparr>"]
  have inv: "permutation_invariant example_metadata"
    using example_wf by (simp add: wf_lru_def)
  have d: "data example_policy = Some example_metadata"
    by (simp add: example_policy_def)
  from t example_new have 1: "permutation_invariant
     \<lparr>num_sets = 2, associativity = 4, order = [[0, 1, 2, 3], [0, 1, 2, 3]]\<rparr>"
    by auto
  from t example_access inv d have 2: "permutation_invariant
     \<lparr>num_sets = 2, associativity = 4, order = [[1, 3, 2, 0], [0, 1, 2, 3]]\<rparr>"
    by auto
  from 1 2 inv d example_new example_access show ?thesis by simp
qed

subsection \<open>An access with a tag that is not in the set\<close>

text \<open>
  C6. Let the lines of set \<open>set_idx\<close> lie within the cache's array of lines. If no line
  of the set holds the tag \<open>tg\<close> with a status other than \<open>INVALID\<close>, then
  \<^verbatim>\<open>lru_cache_access\<close> and \<^verbatim>\<open>lru_prefer_clean_cache_access\<close> return without a fault and
  leave the policy, with all its metadata, exactly as it was.
\<close>

theorem record_access_absent_tag_noop:
  assumes range: "unat set_idx * unat (cs_associativity cs) + unat (cs_associativity cs)
                    \<le> length (cache_lines cs)"
    and size: "length (cache_lines cs) \<le> 2 ^ 32"
    and absent: "\<forall>i<unat (cs_associativity cs). \<not> matches tg (set_line cs set_idx i)"
  shows "lru_cache_access rp cs set_idx tg = Inr rp \<and>
         lru_prefer_clean_cache_access rp cs set_idx tg = Inr rp"
proof -
  let ?a = "unat (cs_associativity cs)"
  have "unat set_idx * ?a < 2 ^ 32"
  proof (cases "?a = 0")
    case True
    then show ?thesis by simp
  next
    case False
    with range size show ?thesis by linarith
  qed
  then have start: "unat (set_idx * cs_associativity cs) = unat set_idx * ?a"
    using unat_mult_lem [of set_idx "cs_associativity cs"] by simp
  have "find_line (cache_lines cs) (unat set_idx * ?a) ?a tg 0 = Inr (- 1)"
    using range absent by (intro find_line_none) (auto simp: matches_def set_line_def)
  then have "lru_cache_access rp cs set_idx tg = Inr rp"
    using start by (intro lru_cache_access_miss) simp
  then show ?thesis by (simp add: prefer_clean_access_eq)
qed

theorem record_access_absent_tag_noop_witness:
  "\<not> (\<exists>i<unat (cs_associativity example_cache). matches 22 (set_line example_cache 1 i)) \<and>
   lru_cache_access example_policy example_cache 1 22 = Inr example_policy \<and>
   lru_prefer_clean_cache_access example_policy example_cache 1 22 = Inr example_policy"
proof -
  have a: "unat (cs_associativity example_cache) = 4"
    by (simp add: example_cache_def)
  have h1: "unat (1::u32) * unat (cs_associativity example_cache) + unat (cs_associativity example_cache)
                    \<le> length (cache_lines example_cache)"
    and h2: "length (cache_lines example_cache) \<le> 2 ^ 32"
    by (simp_all add: example_cache_def)
  have h3: "\<forall>i<unat (cs_associativity example_cache). \<not> matches 22 (set_line example_cache 1 i)"
    unfolding a
  proof (intro allI impI)
    fix i :: nat assume "i < 4"
    then have "i = 0 \<or> i = 1 \<or> i = 2 \<or> i = 3" by arith
    then show "\<not> matches 22 (set_line example_cache 1 i)"
      by (auto simp: matches_def set_line_def example_cache_def)
  qed
  from record_access_absent_tag_noop [OF h1 h2 h3, of example_policy] h3 show ?thesis by simp
qed

subsection \<open>The two access functions\<close>

text \<open>
  C7. \<^verbatim>\<open>lru_prefer_clean_cache_access\<close> and \<^verbatim>\<open>lru_cache_access\<close> have the same result on
  every policy, cache, set index and tag.
\<close>

theorem prefer_clean_record_access_is_lru_record_access:
  "lru_prefer_clean_cache_access rp cs set_idx tg = lru_cache_access rp cs set_idx tg"
  unfolding lru_prefer_clean_cache_access_def lru_cache_access_def ..

subsection \<open>What an access leaves alone\<close>

text \<open>
  C10. Whenever \<^verbatim>\<open>lru_cache_access\<close> or \<^verbatim>\<open>lru_prefer_clean_cache_access\<close> returns, the
  number of sets, the associativity and the number of rows of the metadata are what
  they were, and so is every row of the order table other than the row of \<open>set_idx\<close>.
  A policy without metadata is returned as it is.
\<close>

theorem record_access_frame:
  assumes "lru_cache_access rp cs set_idx tg = Inr rp' \<or>
           lru_prefer_clean_cache_access rp cs set_idx tg = Inr rp'"
  shows "(data rp = None \<longrightarrow> rp' = rp) \<and>
         (\<forall>md. data rp = Some md \<longrightarrow>
            (\<exists>md'. data rp' = Some md' \<and> num_sets md' = num_sets md \<and>
               associativity md' = associativity md \<and>
               length (order md') = length (order md) \<and>
               (\<forall>j. j \<noteq> unat set_idx \<longrightarrow> order md' ! j = order md ! j)))"
proof -
  from assms have "lru_cache_access rp cs set_idx tg = Inr rp'"
    by (simp add: prefer_clean_access_eq)
  from lru_cache_access_shape [OF this] show ?thesis
    by auto
qed

theorem record_access_frame_witness:
  "lru_cache_access example_policy example_cache 0 11 =
     Inr \<lparr>data = Some \<lparr>num_sets = 2, associativity = 4, order = [[1, 3, 2, 0], [0, 1, 2, 3]]\<rparr>\<rparr> \<and>
   data example_policy = Some example_metadata \<and>
   num_sets example_metadata = 2 \<and> associativity example_metadata = 4 \<and>
   length (order example_metadata) = 2 \<and> order example_metadata ! 1 = [0, 1, 2, 3]"
proof -
  let ?rp' = "\<lparr>data = Some \<lparr>num_sets = 2, associativity = 4,
                 order = [[1, 3, 2, 0], [0, 1, 2, 3]]\<rparr>\<rparr>"
  have d: "data example_policy = Some example_metadata"
    by (simp add: example_policy_def)
  from record_access_frame [of example_policy example_cache 0 11 ?rp'] example_access d
  obtain md' where md': "data ?rp' = Some md'" "num_sets md' = num_sets example_metadata"
     "associativity md' = associativity example_metadata"
     "length (order md') = length (order example_metadata)"
     "\<forall>j. j \<noteq> unat (0::u32) \<longrightarrow> order md' ! j = order example_metadata ! j"
    by blast
  from md'(5) have "order md' ! 1 = order example_metadata ! 1" by simp
  with md'(1-4) have "num_sets example_metadata = 2 \<and> associativity example_metadata = 4 \<and>
    length (order example_metadata) = 2 \<and> order example_metadata ! 1 = [0, 1, 2, 3]"
    by auto
  with example_access d show ?thesis by simp
qed

subsection \<open>The eviction candidate of LRU-Prefer-Clean\<close>

text \<open>
  C3. Let the metadata and the cache be well formed and \<open>set_idx\<close> a set of the cache,
  full or not. If a line of the set is \<open>EXCLUSIVE\<close>, then
  \<^verbatim>\<open>lru_prefer_clean_eviction_index\<close> returns the entry at a position \<open>p\<close> of the set's
  order: a local index of the set whose line is \<open>EXCLUSIVE\<close>, while no entry at a
  position behind \<open>p\<close>, nearer to the tail, has an \<open>EXCLUSIVE\<close> line. If no line of
  the set is \<open>EXCLUSIVE\<close>, it returns the entry at the tail of the order, which is what
  \<^verbatim>\<open>lru_eviction_index\<close> returns. The policy is returned as it was.
\<close>

theorem prefer_clean_eviction_candidate:
  assumes wf: "wf_lru md cs" and rp: "data rp = Some md" and s: "set_idx < num_sets md"
  shows "((\<exists>i<unat (associativity md). status (set_line cs set_idx i) = EXCLUSIVE) \<longrightarrow>
           (\<exists>p<unat (associativity md).
              lru_prefer_clean_eviction_index rp cs set_idx =
                Inr (order md ! unat set_idx ! p, rp) \<and>
              unat (order md ! unat set_idx ! p) < unat (associativity md) \<and>
              status (set_line cs set_idx (unat (order md ! unat set_idx ! p))) = EXCLUSIVE \<and>
              (\<forall>q. p < q \<and> q < unat (associativity md) \<longrightarrow>
                 status (set_line cs set_idx (unat (order md ! unat set_idx ! q))) \<noteq> EXCLUSIVE))) \<and>
         (\<not> (\<exists>i<unat (associativity md). status (set_line cs set_idx i) = EXCLUSIVE) \<longrightarrow>
            lru_prefer_clean_eviction_index rp cs set_idx =
              Inr (order md ! unat set_idx ! (unat (associativity md) - 1), rp) \<and>
            lru_eviction_index rp cs set_idx =
              Inr (order md ! unat set_idx ! (unat (associativity md) - 1), rp))"
proof -
  let ?row = "order md ! unat set_idx"
  let ?cls = "cache_lines cs"
  let ?clean = "\<lambda>q. status (set_line cs set_idx (unat (?row ! q))) = EXCLUSIVE"
  let ?excl = "\<lambda>q. status (?cls ! unat (set_idx * associativity md + ?row ! q)) = EXCLUSIVE"
  define n where "n = unat (associativity md)"
  have a: "0 < n" "n \<le> 2 ^ 31"
    using wf unfolding wf_lru_def n_def by auto
  note sl = wf_lru_row(1) [OF wf s]
  note perm = wf_lru_row(2) [OF wf s]
  have len: "length ?row = n"
    using is_permutation_facts(1) [OF perm] by (simp add: n_def)
  have start: "int_of_u32 (associativity md - 1) = int n - 1"
    using a int_of_u32_pred [of "associativity md"] by (simp add: n_def)
  have tail: "unat (associativity md - 1) = n - 1"
    using a(1) unat_pred [of "associativity md"] by (simp add: n_def)
  have r: "rd (order md) (unat set_idx) = Inr ?row"
    using sl by (simp add: rd_def)
  have r2: "rd ?row (n - 1) = Inr (?row ! (n - 1))"
    using a(1) len by (simp add: rd_def)
  have lru: "lru_eviction_index rp cs set_idx = Inr (?row ! (n - 1), rp)"
    using r2 by (simp add: lru_eviction_index_def rp r tail)
  have below: "\<And>q. int q \<le> int n - 1 \<longleftrightarrow> q < n"
    using a(1) by linarith
  have idx: "\<And>q. q < n \<Longrightarrow> ?excl q = ?clean q"
    using wf_lru_global_idx(2) [OF wf s] by (simp add: n_def)
  have entry: "\<And>q. q < n \<Longrightarrow> unat (?row ! q) < n"
    using permutation_entry [OF perm] len by (simp add: n_def)
  have range: "\<forall>q. int q \<le> int n - 1 \<longrightarrow>
      unat (set_idx * associativity md + ?row ! q) < length ?cls"
    unfolding below using wf_lru_global_idx(1) [OF wf s] by (simp add: n_def)
  have "- 1 \<le> int n - 1" "int n - 1 < int (length ?row)"
    using len by simp_all
  from pc_scan_result [OF sl this range]
  have scan: "(\<exists>p<n.
            pc_scan (order md) ?cls set_idx (associativity md) (int n - 1) =
              Inr (Some (?row ! p)) \<and> ?excl p \<and> (\<forall>q. p < q \<and> q < n \<longrightarrow> \<not> ?excl q)) \<or>
         (pc_scan (order md) ?cls set_idx (associativity md) (int n - 1) = Inr None \<and>
            (\<forall>q<n. \<not> ?excl q))"
    unfolding below by blast
  have found: "\<exists>p<n. lru_prefer_clean_eviction_index rp cs set_idx = Inr (?row ! p, rp) \<and>
      unat (?row ! p) < n \<and> ?clean p \<and> (\<forall>q. p < q \<and> q < n \<longrightarrow> \<not> ?clean q)"
    if some: "\<exists>i<n. status (set_line cs set_idx i) = EXCLUSIVE"
  proof -
    from some obtain i where i: "i < n" "status (set_line cs set_idx i) = EXCLUSIVE" by blast
    from permutation_position [OF perm, of i] i(1) obtain q0 where
      q0: "q0 < n" "unat (?row ! q0) = i" using len by (auto simp: n_def)
    with i idx [OF q0(1)] have "?excl q0" by simp
    with q0(1) have "\<not> (\<forall>q<n. \<not> ?excl q)" by blast
    with scan obtain p where p: "p < n"
      "pc_scan (order md) ?cls set_idx (associativity md) (int n - 1) = Inr (Some (?row ! p))"
      "?excl p" "\<forall>q. p < q \<and> q < n \<longrightarrow> \<not> ?excl q"
      by blast
    have res: "lru_prefer_clean_eviction_index rp cs set_idx = Inr (?row ! p, rp)"
      by (simp add: lru_prefer_clean_eviction_index_def rp start p(2))
    have cl: "?clean p" using p(3) idx [OF p(1)] by simp
    have after: "\<forall>q. p < q \<and> q < n \<longrightarrow> \<not> ?clean q"
      using p(4) idx by blast
    from p(1) res entry [OF p(1)] cl after show ?thesis by blast
  qed
  have fallback: "lru_prefer_clean_eviction_index rp cs set_idx = Inr (?row ! (n - 1), rp)"
    if none: "\<not> (\<exists>i<n. status (set_line cs set_idx i) = EXCLUSIVE)"
  proof -
    have "\<not> (\<exists>p<n. ?excl p)"
    proof
      assume "\<exists>p<n. ?excl p"
      then obtain p where p: "p < n" "?excl p" by blast
      then have "?clean p" using idx by blast
      with entry [OF p(1)] none show False by blast
    qed
    with scan have "pc_scan (order md) ?cls set_idx (associativity md) (int n - 1) = Inr None"
      by blast
    then show ?thesis
      using r2 by (simp add: lru_prefer_clean_eviction_index_def rp start r tail)
  qed
  from found fallback lru show ?thesis unfolding n_def by blast
qed


theorem prefer_clean_eviction_candidate_witness:
  "wf_lru example_metadata example_cache \<and> data example_policy = Some example_metadata \<and>
   (\<exists>i<unat (associativity example_metadata). status (set_line example_cache 0 i) = EXCLUSIVE) \<and>
   lru_prefer_clean_eviction_index example_policy example_cache 0 = Inr (1, example_policy) \<and>
   \<not> (\<exists>i<unat (associativity example_metadata). status (set_line example_cache 1 i) = EXCLUSIVE) \<and>
   lru_prefer_clean_eviction_index example_policy example_cache 1 = Inr (3, example_policy) \<and>
   lru_eviction_index example_policy example_cache 1 = Inr (3, example_policy)"
proof -
  have d: "data example_policy = Some example_metadata"
    by (simp add: example_policy_def)
  have a: "unat (associativity example_metadata) = 4"
    by (simp add: example_metadata_def)
  have s0: "(0 :: u32) < num_sets example_metadata" and s1: "(1 :: u32) < num_sets example_metadata"
    by (simp_all add: example_metadata_def)
  have line0: "status (set_line example_cache 0 0) = OTHER 0"
      "status (set_line example_cache 0 1) = EXCLUSIVE"
      "status (set_line example_cache 0 2) = OTHER 0"
      "status (set_line example_cache 0 3) = EXCLUSIVE"
    by (simp_all add: set_line_def example_cache_def)
  have line1: "status (set_line example_cache 1 0) = OTHER 0"
      "status (set_line example_cache 1 1) = OTHER 0"
      "status (set_line example_cache 1 2) = INVALID"
      "status (set_line example_cache 1 3) = OTHER 0"
    by (simp_all add: set_line_def example_cache_def)
  have row0: "order example_metadata ! unat (0 :: u32) = [3, 2, 1, 0]"
    and row1: "order example_metadata ! unat (1 :: u32) = [0, 1, 2, 3]"
    by (simp_all add: example_metadata_def)
  have some: "\<exists>i<unat (associativity example_metadata).
      status (set_line example_cache 0 i) = EXCLUSIVE"
    unfolding a using line0(2) by (intro exI [of _ 1]) simp
  have none: "\<not> (\<exists>i<unat (associativity example_metadata).
      status (set_line example_cache 1 i) = EXCLUSIVE)"
    unfolding a
  proof (rule notI, elim exE conjE)
    fix i :: nat
    assume i: "i < 4" and e: "status (set_line example_cache 1 i) = EXCLUSIVE"
    from i have "i = 0 \<or> i = 1 \<or> i = 2 \<or> i = 3" by arith
    with e line1 show False by auto
  qed
  from prefer_clean_eviction_candidate [OF example_wf d s0] some
  obtain p where p: "p < 4"
    "lru_prefer_clean_eviction_index example_policy example_cache 0 =
       Inr ([3, 2, 1, 0] ! p, example_policy)"
    "status (set_line example_cache 0 (unat (([3, 2, 1, 0] :: u32 list) ! p))) = EXCLUSIVE"
    "\<forall>q. p < q \<and> q < 4 \<longrightarrow>
       status (set_line example_cache 0 (unat (([3, 2, 1, 0] :: u32 list) ! q))) \<noteq> EXCLUSIVE"
    unfolding a row0 by blast
  from p(1) have "p = 0 \<or> p = 1 \<or> p = 2 \<or> p = 3" by arith
  then have "p = 2"
  proof (elim disjE)
    assume "p = 0"
    with p(4) [rule_format, of 2]
    have "status (set_line example_cache 0 (unat (([3, 2, 1, 0] :: u32 list) ! 2))) \<noteq> EXCLUSIVE"
      by simp
    with line0 show ?thesis by simp
  next
    assume "p = 1"
    with p(3) line0 show ?thesis by simp
  next
    assume "p = 3"
    with p(3) line0 show ?thesis by simp
  qed
  with p(2) have e0: "lru_prefer_clean_eviction_index example_policy example_cache 0 =
       Inr (1, example_policy)" by simp
  from prefer_clean_eviction_candidate [OF example_wf d s1] none
  have e1: "lru_prefer_clean_eviction_index example_policy example_cache 1 = Inr (3, example_policy)"
    "lru_eviction_index example_policy example_cache 1 = Inr (3, example_policy)"
    unfolding a row1 by simp_all
  from example_wf d some none e0 e1 show ?thesis by simp
qed

subsection \<open>Four accesses in a set of four lines\<close>

text \<open>
  C4. Let the metadata and the cache be well formed with associativity 4, let the order
  of set \<open>set_idx\<close> be 0, 1, 2, 3, and let the tags \<open>t0\<close>, \<open>t1\<close>, \<open>t2\<close>, \<open>t3\<close> resolve
  to the local indices 0, 1, 2, 3 of the set. Then the four calls of \<^verbatim>\<open>lru_cache_access\<close>
  with these tags, in this sequence, all return, the order of the set is 3, 2, 1, 0
  afterwards, and \<^verbatim>\<open>lru_eviction_index\<close> then returns 0, the entry at position
  associativity - 1.
\<close>

theorem lru_scenario_A:
  assumes wf: "wf_lru md cs" and rp: "data rp = Some md" and s: "set_idx < num_sets md"
    and four: "associativity md = 4"
    and initial: "order md ! unat set_idx = [0, 1, 2, 3]"
    and tags: "resolves cs set_idx t0 0" "resolves cs set_idx t1 1"
              "resolves cs set_idx t2 2" "resolves cs set_idx t3 3"
  shows "\<exists>rp1 rp2 rp3 rp4 md4.
           lru_cache_access rp cs set_idx t0 = Inr rp1 \<and>
           lru_cache_access rp1 cs set_idx t1 = Inr rp2 \<and>
           lru_cache_access rp2 cs set_idx t2 = Inr rp3 \<and>
           lru_cache_access rp3 cs set_idx t3 = Inr rp4 \<and>
           data rp4 = Some md4 \<and> order md4 ! unat set_idx = [3, 2, 1, 0] \<and>
           lru_eviction_index rp4 cs set_idx = Inr (0, rp4) \<and>
           order md4 ! unat set_idx ! (unat (associativity md4) - 1) = 0"
proof -
  from lru_cache_access_step [OF wf rp s tags(1) initial, of 0]
  obtain rp1 md1 where 1: "lru_cache_access rp cs set_idx t0 = Inr rp1" "data rp1 = Some md1"
    "wf_lru md1 cs" "num_sets md1 = num_sets md" "associativity md1 = associativity md"
    "order md1 ! unat set_idx = [0, 1, 2, 3]"
    by auto
  from 1(4) s have s1: "set_idx < num_sets md1" by simp
  from lru_cache_access_step [OF 1(3) 1(2) s1 tags(2) 1(6), of 1]
  obtain rp2 md2 where 2: "lru_cache_access rp1 cs set_idx t1 = Inr rp2" "data rp2 = Some md2"
    "wf_lru md2 cs" "num_sets md2 = num_sets md1" "associativity md2 = associativity md1"
    "order md2 ! unat set_idx = [1, 0, 2, 3]"
    by auto
  from 2(4) s1 have s2: "set_idx < num_sets md2" by simp
  from lru_cache_access_step [OF 2(3) 2(2) s2 tags(3) 2(6), of 2]
  obtain rp3 md3 where 3: "lru_cache_access rp2 cs set_idx t2 = Inr rp3" "data rp3 = Some md3"
    "wf_lru md3 cs" "num_sets md3 = num_sets md2" "associativity md3 = associativity md2"
    "order md3 ! unat set_idx = [2, 1, 0, 3]"
    by auto
  from 3(4) s2 have s3: "set_idx < num_sets md3" by simp
  from lru_cache_access_step [OF 3(3) 3(2) s3 tags(4) 3(6), of 3]
  obtain rp4 md4 where 4: "lru_cache_access rp3 cs set_idx t3 = Inr rp4" "data rp4 = Some md4"
    "wf_lru md4 cs" "num_sets md4 = num_sets md3" "associativity md4 = associativity md3"
    "order md4 ! unat set_idx = [3, 2, 1, 0]"
    by auto
  have a4: "associativity md4 = 4" using 4(5) 3(5) 2(5) 1(5) four by simp
  have s4: "set_idx < num_sets md4" using 4(4) s3 by simp
  have "rd (order md4) (unat set_idx) = Inr [3, 2, 1, 0]"
    using wf_lru_row(1) [OF 4(3) s4] 4(6) by (simp add: rd_def)
  then have ev: "lru_eviction_index rp4 cs set_idx = Inr (0, rp4)"
    by (simp add: lru_eviction_index_def 4(2) a4 rd_def)
  have "order md4 ! unat set_idx ! (unat (associativity md4) - 1) = 0"
    by (simp add: 4(6) a4)
  with 1(1) 2(1) 3(1) 4(1) 4(2) 4(6) ev show ?thesis by blast
qed


theorem lru_scenario_A_witness:
  "lru_replacement_policy_new (\<lambda>k. True) 2 4 =
     Inr (Some \<lparr>data = Some \<lparr>num_sets = 2, associativity = 4,
       order = [[0, 1, 2, 3], [0, 1, 2, 3]]\<rparr>\<rparr>) \<and>
   resolves example_cache 0 10 0 \<and> resolves example_cache 0 11 1 \<and>
   resolves example_cache 0 12 2 \<and> resolves example_cache 0 13 3 \<and>
   lru_cache_access \<lparr>data = Some \<lparr>num_sets = 2, associativity = 4,
       order = [[0, 1, 2, 3], [0, 1, 2, 3]]\<rparr>\<rparr> example_cache 0 10 =
     Inr \<lparr>data = Some \<lparr>num_sets = 2, associativity = 4,
       order = [[0, 1, 2, 3], [0, 1, 2, 3]]\<rparr>\<rparr> \<and>
   lru_cache_access \<lparr>data = Some \<lparr>num_sets = 2, associativity = 4,
       order = [[0, 1, 2, 3], [0, 1, 2, 3]]\<rparr>\<rparr> example_cache 0 11 =
     Inr \<lparr>data = Some \<lparr>num_sets = 2, associativity = 4,
       order = [[1, 0, 2, 3], [0, 1, 2, 3]]\<rparr>\<rparr> \<and>
   lru_cache_access \<lparr>data = Some \<lparr>num_sets = 2, associativity = 4,
       order = [[1, 0, 2, 3], [0, 1, 2, 3]]\<rparr>\<rparr> example_cache 0 12 =
     Inr \<lparr>data = Some \<lparr>num_sets = 2, associativity = 4,
       order = [[2, 1, 0, 3], [0, 1, 2, 3]]\<rparr>\<rparr> \<and>
   lru_cache_access \<lparr>data = Some \<lparr>num_sets = 2, associativity = 4,
       order = [[2, 1, 0, 3], [0, 1, 2, 3]]\<rparr>\<rparr> example_cache 0 13 =
     Inr \<lparr>data = Some \<lparr>num_sets = 2, associativity = 4,
       order = [[3, 2, 1, 0], [0, 1, 2, 3]]\<rparr>\<rparr> \<and>
   lru_eviction_index \<lparr>data = Some \<lparr>num_sets = 2, associativity = 4,
       order = [[3, 2, 1, 0], [0, 1, 2, 3]]\<rparr>\<rparr> example_cache 0 =
     Inr (0, \<lparr>data = Some \<lparr>num_sets = 2, associativity = 4,
       order = [[3, 2, 1, 0], [0, 1, 2, 3]]\<rparr>\<rparr>)"
proof -
  let ?md0 = "\<lparr>num_sets = 2, associativity = 4, order = [[0, 1, 2, 3], [0, 1, 2, 3]]\<rparr>"
  let ?P0 = "\<lparr>data = Some ?md0\<rparr>"
  let ?P2 = "\<lparr>data = Some \<lparr>num_sets = 2, associativity = 4,
       order = [[1, 0, 2, 3], [0, 1, 2, 3 :: u32]]\<rparr>\<rparr>"
  let ?P3 = "\<lparr>data = Some \<lparr>num_sets = 2, associativity = 4,
       order = [[2, 1, 0, 3], [0, 1, 2, 3 :: u32]]\<rparr>\<rparr>"
  let ?P4 = "\<lparr>data = Some \<lparr>num_sets = 2, associativity = 4,
       order = [[3, 2, 1, 0], [0, 1, 2, 3 :: u32]]\<rparr>\<rparr>"
  note ev = lru_cache_access_def find_line.simps find_pos.simps shift_loop.simps rd_def wr_def
      int_of_u32_def u32_of_int_def example_cache_def
  have wf: "wf_lru ?md0 example_cache"
    by (simp add: wf_lru_def permutation_invariant_def example_cache_def is_permutation_def upt_rec)
  have t: "resolves example_cache 0 10 0" "resolves example_cache 0 11 1"
      "resolves example_cache 0 12 2" "resolves example_cache 0 13 3"
    by (simp_all add: resolves_def example_cache_def matches_def set_line_def upt_rec)
  have a1: "lru_cache_access ?P0 example_cache 0 10 = Inr ?P0" by (simp add: ev)
  have a2: "lru_cache_access ?P0 example_cache 0 11 = Inr ?P2" by (simp add: ev)
  have a3: "lru_cache_access ?P2 example_cache 0 12 = Inr ?P3" by (simp add: ev)
  have a4: "lru_cache_access ?P3 example_cache 0 13 = Inr ?P4" by (simp add: ev)
  from lru_scenario_A [OF wf _ _ _ _ t, of ?P0]
  obtain rp1 rp2 rp3 rp4 where r:
    "lru_cache_access ?P0 example_cache 0 10 = Inr rp1"
    "lru_cache_access rp1 example_cache 0 11 = Inr rp2"
    "lru_cache_access rp2 example_cache 0 12 = Inr rp3"
    "lru_cache_access rp3 example_cache 0 13 = Inr rp4"
    "lru_eviction_index rp4 example_cache 0 = Inr (0, rp4)"
    by auto
  from r(1) a1 have "rp1 = ?P0" by simp
  with r(2) a2 have "rp2 = ?P2" by simp
  with r(3) a3 have "rp3 = ?P3" by simp
  with r(4) a4 have "rp4 = ?P4" by simp
  with r(5) have "lru_eviction_index ?P4 example_cache 0 = Inr (0, ?P4)" by simp
  with example_new t a1 a2 a3 a4 show ?thesis by simp
qed

subsection \<open>Choosing a candidate changes nothing\<close>

text \<open>
  C5. Whenever \<^verbatim>\<open>lru_eviction_index\<close>, \<^verbatim>\<open>lru_prefer_clean_eviction_index\<close> or
  \<^verbatim>\<open>rand_eviction_index\<close> (in either copy of the file) returns, the policy struct, and
  with it the order table, the number of sets and the associativity, is what it was
  before the call. A second call of \<^verbatim>\<open>lru_eviction_index\<close>, or of
  \<^verbatim>\<open>lru_prefer_clean_eviction_index\<close>, on the same set and cache right after the first
  returns the same local index.
\<close>

theorem eviction_index_read_only:
  "(lru_eviction_index rp cs set_idx = Inr (v, rp') \<longrightarrow>
      rp' = rp \<and> lru_eviction_index rp' cs set_idx = Inr (v, rp')) \<and>
   (lru_prefer_clean_eviction_index rp cs set_idx = Inr (v, rp') \<longrightarrow>
      rp' = rp \<and> lru_prefer_clean_eviction_index rp' cs set_idx = Inr (v, rp')) \<and>
   (rand_eviction_index rq cs set_idx r = Inr (w, rq') \<longrightarrow> rq' = rq) \<and>
   (rand_eviction_index_sodium randombytes_uniform rq cs set_idx = Inr (w, rq') \<longrightarrow> rq' = rq)"
proof (intro conjI impI)
  assume a: "lru_eviction_index rp cs set_idx = Inr (v, rp')"
  then show "rp' = rp"
    by (auto simp: lru_eviction_index_def split: option.splits sum.splits)
  with a show "lru_eviction_index rp' cs set_idx = Inr (v, rp')" by simp
next
  assume a: "lru_prefer_clean_eviction_index rp cs set_idx = Inr (v, rp')"
  then show "rp' = rp"
    by (auto simp: lru_prefer_clean_eviction_index_def Let_def split: option.splits sum.splits)
  with a show "lru_prefer_clean_eviction_index rp' cs set_idx = Inr (v, rp')" by simp
next
  assume "rand_eviction_index rq cs set_idx r = Inr (w, rq')"
  then show "rq' = rq"
    by (auto simp: rand_eviction_index_def Let_def split: option.splits if_splits)
next
  assume "rand_eviction_index_sodium randombytes_uniform rq cs set_idx = Inr (w, rq')"
  then show "rq' = rq"
    by (auto simp: rand_eviction_index_sodium_def Let_def split: option.splits)
qed

theorem eviction_index_read_only_witness:
  "lru_eviction_index example_policy example_cache 0 = Inr (0, example_policy) \<and>
   lru_prefer_clean_eviction_index example_policy example_cache 0 = Inr (1, example_policy) \<and>
   rand_eviction_index \<lparr>data = Some \<lparr>rand_num_sets = 2, rand_associativity = 4\<rparr>\<rparr>
     example_cache 0 1234567 =
     Inr (3, \<lparr>data = Some \<lparr>rand_num_sets = 2, rand_associativity = 4\<rparr>\<rparr>) \<and>
   rand_eviction_index_sodium (\<lambda>n. 3)
     \<lparr>data = Some \<lparr>rand_num_sets = 2, rand_associativity = 4\<rparr>\<rparr> example_cache 0 =
     Inr (3, \<lparr>data = Some \<lparr>rand_num_sets = 2, rand_associativity = 4\<rparr>\<rparr>)"
proof -
  have "rand_eviction_index_sodium (\<lambda>n. 3)
     \<lparr>data = Some \<lparr>rand_num_sets = 2, rand_associativity = 4\<rparr>\<rparr> example_cache 0 =
     Inr (3, \<lparr>data = Some \<lparr>rand_num_sets = 2, rand_associativity = 4\<rparr>\<rparr>)"
    by (simp add: rand_eviction_index_sodium_def)
  with eviction_index_read_only [of example_policy example_cache 0 0 example_policy]
    example_eviction example_rand
  show ?thesis by simp
qed

subsection \<open>The candidate of the random policy\<close>

text \<open>
  With metadata and a positive associativity, \<^verbatim>\<open>rand_eviction_index\<close> of
  \<^verbatim>\<open>src/replacement_policies.c\<close> returns a local index below the associativity, the same
  for every set index and every cache, and 0 when the associativity is 1.
\<close>

lemma rand_eviction_index_result:
  assumes "data rq = Some md" "rand_associativity md \<noteq> 0"
  shows "\<exists>v. rand_eviction_index rq cs set_idx r = Inr (v, rq) \<and> v < rand_associativity md \<and>
           rand_eviction_index rq cs' set_idx' r = Inr (v, rq) \<and>
           (rand_associativity md = 1 \<longrightarrow> v = 0)"
proof -
  have "u32_of_int r mod rand_associativity md < rand_associativity md"
    using assms(2) by (simp add: word_mod_less_divisor word_greater_zero_iff)
  moreover have "rand_associativity md = 1 \<longrightarrow> u32_of_int r mod rand_associativity md = 0"
    by simp
  ultimately show ?thesis
    using assms by (simp add: rand_eviction_index_def)
qed

text \<open>
  The remainder by 3 of the natural numbers below \<open>2 ^ 31\<close>, counted: the values that
  \<^verbatim>\<open>rand()\<close> can return where \<^verbatim>\<open>RAND_MAX\<close> is 2147483647, as in glibc.
\<close>

lemma residues_mod_3:
  assumes "j < 3"
  shows "{n :: nat. n < N \<and> n mod 3 = j} = (\<lambda>q. 3 * q + j) ` {q. 3 * q + j < N}"
proof (intro set_eqI iffI)
  fix n assume "n \<in> {n. n < N \<and> n mod 3 = j}"
  then have n: "n < N" "n mod 3 = j" by auto
  then have "n = 3 * (n div 3) + j" by presburger
  moreover from this n(1) have "3 * (n div 3) + j < N" by simp
  ultimately show "n \<in> (\<lambda>q. 3 * q + j) ` {q. 3 * q + j < N}" by blast
next
  fix n assume "n \<in> (\<lambda>q. 3 * q + j) ` {q. 3 * q + j < N}"
  then obtain q where "n = 3 * q + j" "3 * q + j < N" by auto
  with assms show "n \<in> {n. n < N \<and> n mod 3 = j}" by simp
qed

lemma card_residues_mod_3:
  assumes "j < 3"
  shows "card {n :: nat. n < N \<and> n mod 3 = j} = card {q :: nat. 3 * q + j < N}"
proof -
  have "inj_on (\<lambda>q :: nat. 3 * q + j) {q. 3 * q + j < N}"
    by (rule inj_onI) simp
  then show ?thesis
    unfolding residues_mod_3 [OF assms] by (rule card_image)
qed

lemma count_0: "card {n :: nat. n < 2147483648 \<and> n mod 3 = 0} = 715827883"
proof -
  have "{q :: nat. 3 * q + 0 < 2147483648} = {..<715827883}" by auto
  then show ?thesis using card_residues_mod_3 [of 0 2147483648] by simp
qed

lemma count_2: "card {n :: nat. n < 2147483648 \<and> n mod 3 = 2} = 715827882"
proof -
  have "{q :: nat. 3 * q + 2 < 2147483648} = {..<715827882}" by auto
  then show ?thesis using card_residues_mod_3 [of 2 2147483648] by simp
qed


lemma rand_remainder:
  assumes "0 \<le> r" "r \<le> 2147483647"
  shows "unat (u32_of_int r mod 3) = nat r mod 3"
proof -
  have "u32_of_int r = word_of_nat (nat r)"
    using assms(1) by (simp add: u32_of_int_def)
  moreover have "nat r < 2 ^ 32" using assms by simp
  ultimately have "unat (u32_of_int r) = nat r"
    by (simp add: unat_of_nat)
  then show ?thesis by (simp add: unat_mod_distrib)
qed

lemma rand_outcomes:
  assumes "j = 0 \<or> j = 2"
  shows "{r. 0 \<le> r \<and> r \<le> 2147483647 \<and>
            rand_eviction_index \<lparr>data = Some \<lparr>rand_num_sets = sets, rand_associativity = 3\<rparr>\<rparr>
              cs set_idx r =
            Inr (word_of_nat j, \<lparr>data = Some \<lparr>rand_num_sets = sets, rand_associativity = 3\<rparr>\<rparr>)} =
         int ` {n. n < 2147483648 \<and> n mod 3 = j}"
proof -
  have j: "unat (word_of_nat j :: u32) = j"
    using assms by auto
  have eq: "u32_of_int r mod 3 = word_of_nat j \<longleftrightarrow> nat r mod 3 = j"
    if "0 \<le> r" "r \<le> 2147483647" for r
    using rand_remainder [OF that] j by (metis word_unat_eq_iff)
  show ?thesis
  proof (intro set_eqI iffI)
    fix r assume "r \<in> {r. 0 \<le> r \<and> r \<le> 2147483647 \<and>
            rand_eviction_index \<lparr>data = Some \<lparr>rand_num_sets = sets, rand_associativity = 3\<rparr>\<rparr>
              cs set_idx r =
            Inr (word_of_nat j, \<lparr>data = Some \<lparr>rand_num_sets = sets, rand_associativity = 3\<rparr>\<rparr>)}"
    then have r: "0 \<le> r" "r \<le> 2147483647" "u32_of_int r mod 3 = word_of_nat j"
      by (simp_all add: rand_eviction_index_def)
    then have "nat r mod 3 = j" using eq by simp
    moreover have "nat r < 2147483648" "r = int (nat r)" using r by simp_all
    ultimately show "r \<in> int ` {n. n < 2147483648 \<and> n mod 3 = j}" by blast
  next
    fix r assume "r \<in> int ` {n. n < 2147483648 \<and> n mod 3 = j}"
    then obtain n where n: "r = int n" "n < 2147483648" "n mod 3 = j" by auto
    then have "0 \<le> r" "r \<le> 2147483647" "nat r mod 3 = j" by simp_all
    then show "r \<in> {r. 0 \<le> r \<and> r \<le> 2147483647 \<and>
            rand_eviction_index \<lparr>data = Some \<lparr>rand_num_sets = sets, rand_associativity = 3\<rparr>\<rparr>
              cs set_idx r =
            Inr (word_of_nat j, \<lparr>data = Some \<lparr>rand_num_sets = sets, rand_associativity = 3\<rparr>\<rparr>)}"
      using eq by (simp add: rand_eviction_index_def)
  qed
qed

text \<open>
  C8. The claim asks for a draw that is uniform over the local indices, and not for the
  remainder of a random word. \<^verbatim>\<open>rand_eviction_index\<close> of \<^verbatim>\<open>src/replacement_policies.c\<close>
  returns \<^verbatim>\<open>rand() % assoc\<close>. With associativity 3 and \<^verbatim>\<open>RAND_MAX\<close> = 2147483647, of the
  \<open>2 ^ 31\<close> values that \<^verbatim>\<open>rand()\<close> can return, 715827883 make it return 0 and 715827882
  make it return 2: values of \<^verbatim>\<open>rand()\<close> that are equally likely do not give equally
  likely candidates.
\<close>

theorem rand_eviction_index_modulo_bias:
  "card {r. 0 \<le> r \<and> r \<le> 2147483647 \<and>
            rand_eviction_index \<lparr>data = Some \<lparr>rand_num_sets = sets, rand_associativity = 3\<rparr>\<rparr>
              cs set_idx r =
            Inr (0, \<lparr>data = Some \<lparr>rand_num_sets = sets, rand_associativity = 3\<rparr>\<rparr>)} = 715827883 \<and>
   card {r. 0 \<le> r \<and> r \<le> 2147483647 \<and>
            rand_eviction_index \<lparr>data = Some \<lparr>rand_num_sets = sets, rand_associativity = 3\<rparr>\<rparr>
              cs set_idx r =
            Inr (2, \<lparr>data = Some \<lparr>rand_num_sets = sets, rand_associativity = 3\<rparr>\<rparr>)} = 715827882"
proof -
  have inj: "\<And>A. inj_on int A" by (simp add: inj_on_def)
  show ?thesis
    using rand_outcomes [of 0 sets cs set_idx] rand_outcomes [of 2 sets cs set_idx]
    by (simp add: card_image [OF inj] count_0 count_2)
qed

subsection \<open>Cleanup\<close>

text \<open>
  On a policy that is not null, each cleanup returns without a fault when the table has a
  row pointer for each set, leaves the policy without metadata, and a second cleanup
  changes nothing more.
\<close>

lemma cleanup_idempotent:
  "(unat (num_sets md) \<le> length (order md) \<longrightarrow>
      lru_replacement_policy_cleanup (Some \<lparr>data = Some md\<rparr>) = Inr (Some \<lparr>data = None\<rparr>) \<and>
      lru_prefer_clean_replacement_policy_cleanup (Some \<lparr>data = Some md\<rparr>) =
        Inr (Some \<lparr>data = None\<rparr>)) \<and>
   lru_replacement_policy_cleanup (Some \<lparr>data = None\<rparr>) = Inr (Some \<lparr>data = None\<rparr>) \<and>
   lru_prefer_clean_replacement_policy_cleanup (Some \<lparr>data = None\<rparr>) =
     Inr (Some \<lparr>data = None\<rparr>) \<and>
   rand_replacement_policy_cleanup (Some \<lparr>data = Some rmd\<rparr>) = Inr (Some \<lparr>data = None\<rparr>) \<and>
   rand_replacement_policy_cleanup (Some \<lparr>data = None\<rparr>) = Inr (Some \<lparr>data = None\<rparr>)"
  by (simp add: lru_replacement_policy_cleanup_def lru_prefer_clean_replacement_policy_cleanup_def
      rand_replacement_policy_cleanup_def)

text \<open>
  C9. The claim asks that the cleanup of every policy does nothing on a null policy.
  \<^verbatim>\<open>rand_replacement_policy_cleanup\<close> tests the pointer and returns. The cleanups of LRU
  and of LRU-Prefer-Clean read \<^verbatim>\<open>replacement_policy->data\<close> before any test: on the null
  pointer that is a read through a null pointer.
\<close>

theorem lru_cleanup_of_null_policy:
  "lru_replacement_policy_cleanup None = Inl NullDeref \<and>
   lru_prefer_clean_replacement_policy_cleanup None = Inl NullDeref \<and>
   rand_replacement_policy_cleanup None = Inr None"
  by (simp add: lru_replacement_policy_cleanup_def lru_prefer_clean_replacement_policy_cleanup_def
      rand_replacement_policy_cleanup_def)

end
